theory Spec2Isabelle
  imports Complex_Main
begin

section \<open>Count stability monitor (class WatermarkGenerator of jiance1.py)\<close>

text \<open>
  The fields of \<^verbatim>\<open>WatermarkGenerator\<close> that the statistics and the target logic read or
  write. The position, font and drag fields only serve \<^verbatim>\<open>add_watermark\<close> and are left
  out, and so is the rate-limited logging with its field \<^verbatim>\<open>last_log_time\<close>, which no other
  statement of the class reads. Clock readings (\<^verbatim>\<open>time.time()\<close>) are idealised as real
  numbers; \<^verbatim>\<open>target_stable_seconds\<close> holds the integer returned by
  \<^verbatim>\<open>random.randint(2, 5)\<close>.
\<close>

record watermark =
  custom_text :: string
  max_pill_count :: int
  max_pill_frame :: int
  frame_count :: int
  current_pill_count :: int
  target_pills :: int
  target_reached :: bool
  target_start_time :: real
  target_stable_seconds :: int
  success_message_shown :: bool
  notification_triggered :: bool
  success_timestamp :: string

text \<open>\<^verbatim>\<open>__init__\<close>: the custom text is a parameter, everything else is zero, false or empty.\<close>

definition watermark_init :: "string \<Rightarrow> watermark" where
  "watermark_init txt =
     \<lparr>custom_text = txt, max_pill_count = 0, max_pill_frame = 0, frame_count = 0,
      current_pill_count = 0, target_pills = 0, target_reached = False,
      target_start_time = 0, target_stable_seconds = 0, success_message_shown = False,
      notification_triggered = False, success_timestamp = ''''\<rparr>"

text \<open>\<^verbatim>\<open>set_target_pills(count)\<close>, lines 500-506.\<close>

definition set_target_pills :: "int \<Rightarrow> watermark \<Rightarrow> watermark" where
  "set_target_pills n w =
     w\<lparr>target_pills := n, target_reached := False, success_message_shown := False,
       notification_triggered := False, success_timestamp := ''''\<rparr>"

text \<open>
  \<^verbatim>\<open>update_stats(pill_count)\<close>, lines 513-566. The clock reading \<open>now\<close> and the value
  \<open>draw\<close> that \<^verbatim>\<open>random.randint(2, 5)\<close> would return in this call are inputs; the draw is
  consumed only in the branch that starts an episode.
\<close>

definition update_counters :: "watermark \<Rightarrow> int \<Rightarrow> watermark" where
  "update_counters w pill_count =
     (let w1 = w\<lparr>frame_count := frame_count w + 1, current_pill_count := pill_count\<rparr>
      in if pill_count > max_pill_count w1
         then w1\<lparr>max_pill_count := pill_count, max_pill_frame := frame_count w1\<rparr>
         else w1)"

definition update_stats :: "watermark \<Rightarrow> int \<Rightarrow> real \<Rightarrow> int \<Rightarrow> bool \<times> watermark" where
  "update_stats w pill_count now draw =
     (let w2 = update_counters w pill_count in
      if target_pills w2 > 0 then
        if pill_count = target_pills w2 then
          if \<not> target_reached w2 then
            (False, w2\<lparr>target_reached := True, target_start_time := now,
                        target_stable_seconds := draw, notification_triggered := False,
                        success_message_shown := False\<rparr>)
          else if \<not> success_message_shown w2 \<and> \<not> notification_triggered w2 then
            (if now - target_start_time w2 \<ge> real_of_int (target_stable_seconds w2)
             then (True, w2) else (False, w2))
          else (False, w2)
        else
          (False, w2\<lparr>target_reached := False, success_message_shown := False,
                      notification_triggered := False, target_start_time := 0,
                      success_timestamp := ''''\<rparr>)
      else
        (False, w2\<lparr>target_reached := False, success_message_shown := False,
                    notification_triggered := False, success_timestamp := ''''\<rparr>))"

text \<open>
  \<^verbatim>\<open>mark_notification_triggered()\<close>, lines 568-576; \<open>stamp\<close> is the formatted
  \<^verbatim>\<open>datetime.now()\<close>.
\<close>

definition mark_notification_triggered :: "watermark \<Rightarrow> string \<Rightarrow> watermark" where
  "mark_notification_triggered w stamp =
     w\<lparr>notification_triggered := True, success_message_shown := True,
       success_timestamp := stamp\<rparr>"

text \<open>\<^verbatim>\<open>reset_stats()\<close>, lines 578-591.\<close>

definition reset_stats :: "watermark \<Rightarrow> watermark" where
  "reset_stats w =
     w\<lparr>max_pill_count := 0, max_pill_frame := 0, frame_count := 0, current_pill_count := 0,
       target_reached := False, success_message_shown := False,
       notification_triggered := False, success_timestamp := ''''\<rparr>"

subsection \<open>The call protocol of the processing loop\<close>

text \<open>
  One processed frame as the monitor sees it: the count, the clock reading, the value the
  random generator would return, and the time stamp \<^verbatim>\<open>mark_notification_triggered\<close> would
  format.
\<close>

datatype obs = Obs (count_of: int) (clock_of: real) (draw_of: int) (stamp_of: string)

text \<open>
  \<^verbatim>\<open>_update_video\<close> (lines 2040-2043) calls \<^verbatim>\<open>update_stats\<close> and, when it returns true,
  \<^verbatim>\<open>_trigger_success_notification\<close>, whose effect on the monitor is
  \<^verbatim>\<open>mark_notification_triggered\<close> (line 1917).
\<close>

definition observe_and_mark :: "watermark \<Rightarrow> obs \<Rightarrow> bool \<times> watermark" where
  "observe_and_mark w ob =
     (let (r, w') = update_stats w (count_of ob) (clock_of ob) (draw_of ob)
      in if r then (True, mark_notification_triggered w' (stamp_of ob)) else (False, w'))"

fun monitor_final :: "watermark \<Rightarrow> obs list \<Rightarrow> watermark" where
  "monitor_final w [] = w"
| "monitor_final w (ob # obs) = monitor_final (snd (observe_and_mark w ob)) obs"

fun monitor_outputs :: "watermark \<Rightarrow> obs list \<Rightarrow> bool list" where
  "monitor_outputs w [] = []"
| "monitor_outputs w (ob # obs) =
     fst (observe_and_mark w ob) # monitor_outputs (snd (observe_and_mark w ob)) obs"

text \<open>The frames of the scenario: counts 5,5,5,4,5,5,5,5 at one-second intervals, settle 2 s.\<close>

definition scenario_frames :: "obs list" where
  "scenario_frames =
     [Obs 5 100 2 ''a'', Obs 5 101 2 ''b'', Obs 5 102 2 ''c'', Obs 4 103 2 ''d'',
      Obs 5 104 2 ''e'', Obs 5 105 2 ''f'', Obs 5 106 2 ''g'', Obs 5 107 2 ''h'']"

text \<open>
  The calls that reach the monitor during a session: \<^verbatim>\<open>set_target_pills\<close> from the
  target entry and the configuration, \<^verbatim>\<open>reset_stats\<close> when the camera or a recording is
  toggled, the per-frame call with its acknowledgement, and the per-frame call alone (its
  result is dropped when detection is off, and the acknowledgement is skipped when
  \<^verbatim>\<open>_trigger_success_notification\<close> ends in its exception handler).
\<close>

datatype monitor_op = Set_target int | Reset_stats | Observe obs | Unacknowledged obs

fun monitor_step :: "watermark \<Rightarrow> monitor_op \<Rightarrow> watermark" where
  "monitor_step w (Set_target n) = set_target_pills n w"
| "monitor_step w Reset_stats = reset_stats w"
| "monitor_step w (Observe ob) = snd (observe_and_mark w ob)"
| "monitor_step w (Unacknowledged ob) =
     snd (update_stats w (count_of ob) (clock_of ob) (draw_of ob))"

fun monitor_exec :: "watermark \<Rightarrow> monitor_op list \<Rightarrow> watermark" where
  "monitor_exec w [] = w"
| "monitor_exec w (op # ops) = monitor_exec (monitor_step w op) ops"

text \<open>\<^verbatim>\<open>time.time()\<close> counts seconds from 1970, so a clock reading is positive.\<close>

fun clock_positive :: "monitor_op \<Rightarrow> bool" where
  "clock_positive (Observe ob) = (0 < clock_of ob)"
| "clock_positive (Unacknowledged ob) = (0 < clock_of ob)"
| "clock_positive op = True"

text \<open>
  The invariant of the stability state: a set reached flag comes with a recorded start time
  (0 is the value of an unset start time), and a sent notification with a set reached flag.
\<close>

definition stability_invariant :: "watermark \<Rightarrow> bool" where
  "stability_invariant w =
     ((target_reached w \<longrightarrow> target_start_time w \<noteq> 0)
      \<and> (notification_triggered w \<longrightarrow> target_reached w))"

section \<open>Single-slot frame hand-off (class CameraThread of jiance1.py)\<close>

text \<open>
  \<^verbatim>\<open>Queue(maxsize=1)\<close> of the Python standard library, as the list of its items, oldest
  first. \<^verbatim>\<open>get_nowait\<close> raises \<^verbatim>\<open>queue.Empty\<close> on an empty queue (\<open>None\<close> here);
  \<^verbatim>\<open>put\<close> without a timeout waits while the queue is full, which in a run without a
  consumer is forever (\<open>None\<close> here).
\<close>

definition maxsize :: nat where
  "maxsize = 1"

definition queue_full :: "'f list \<Rightarrow> bool" where
  "queue_full q = (maxsize \<le> length q)"

definition queue_get_nowait :: "'f list \<Rightarrow> ('f \<times> 'f list) option" where
  "queue_get_nowait q = (case q of [] \<Rightarrow> None | f # r \<Rightarrow> Some (f, r))"

definition queue_put :: "'f list \<Rightarrow> 'f \<Rightarrow> 'f list option" where
  "queue_put q f = (if queue_full q then None else Some (q @ [f]))"

text \<open>
  The thread of execution behind a \<^verbatim>\<open>threading.Thread\<close>: created, inside \<^verbatim>\<open>run\<close> before
  the loop, inside the loop, and returned from \<^verbatim>\<open>run\<close>. \<^verbatim>\<open>is_alive()\<close> holds in the two
  middle phases.
\<close>

datatype thread_phase = Created | Opening | Looping | Finished

text \<open>
  The fields of \<^verbatim>\<open>CameraThread\<close>. \<open>camera\<close> is \<open>None\<close> while \<^verbatim>\<open>self.camera\<close> is
  \<^verbatim>\<open>None\<close>, and \<open>Some b\<close> for a capture object whose device is open iff \<open>b\<close>.
\<close>

record 'f camera_thread =
  camera_index :: int
  width :: int
  height :: int
  running :: bool
  frame_queue :: "'f list"
  camera :: "bool option"
  phase :: thread_phase

definition camera_thread_init :: "int \<Rightarrow> int \<Rightarrow> int \<Rightarrow> 'f camera_thread" where
  "camera_thread_init idx w h =
     \<lparr>camera_index = idx, width = w, height = h, running = True, frame_queue = [],
      camera = None, phase = Created\<rparr>"

definition is_alive :: "'f camera_thread \<Rightarrow> bool" where
  "is_alive ct = (phase ct = Opening \<or> phase ct = Looping)"

text \<open>
  \<^verbatim>\<open>Thread.start()\<close>: \<^verbatim>\<open>run\<close> begins on the new thread. The application starts every
  thread object once; a second start, which Python refuses, leaves the thread as it is.
\<close>

definition start :: "'f camera_thread \<Rightarrow> 'f camera_thread" where
  "start ct = (if phase ct = Created then ct\<lparr>phase := Opening\<rparr> else ct)"

text \<open>\<^verbatim>\<open>stop()\<close>, lines 296-304: clear the flag, release the capture object if there is one.\<close>

definition stop :: "'f camera_thread \<Rightarrow> 'f camera_thread" where
  "stop ct =
     (let ct1 = ct\<lparr>running := False\<rparr>
      in case camera ct1 of None \<Rightarrow> ct1 | Some b \<Rightarrow> ct1\<lparr>camera := Some False\<rparr>)"

text \<open>
  The hand-off of lines 275-281: when the queue is full its item is taken out (an exception
  of \<^verbatim>\<open>get_nowait\<close> is swallowed), then the frame is put.
\<close>

definition publish_frame :: "'f list \<Rightarrow> 'f \<Rightarrow> 'f list option" where
  "publish_frame q frame =
     queue_put
       (if queue_full q
        then (case queue_get_nowait q of None \<Rightarrow> q | Some (old, q') \<Rightarrow> q')
        else q)
       frame"

text \<open>
  The body of the \<^verbatim>\<open>while self.running\<close> loop for one result \<open>(ret, frame)\<close> of
  \<^verbatim>\<open>self.camera.read()\<close>; \<open>None\<close> when the thread would wait in \<^verbatim>\<open>put\<close>.
\<close>

definition run_iteration :: "'f camera_thread \<Rightarrow> bool \<Rightarrow> 'f \<Rightarrow> 'f camera_thread option" where
  "run_iteration ct ret frame =
     (if ret
      then (case publish_frame (frame_queue ct) frame of
              None \<Rightarrow> None
            | Some q \<Rightarrow> Some (ct\<lparr>frame_queue := q\<rparr>))
      else Some ct)"

text \<open>N consecutive iterations whose reads all succeed, with the frames read.\<close>

fun run_writes :: "'f camera_thread \<Rightarrow> 'f list \<Rightarrow> 'f camera_thread option" where
  "run_writes ct [] = Some ct"
| "run_writes ct (f # fs) =
     (case run_iteration ct True f of None \<Rightarrow> None | Some ct' \<Rightarrow> run_writes ct' fs)"

text \<open>
  \<^verbatim>\<open>run\<close> up to the loop (lines 251-270): \<open>cam\<close> is the value of \<^verbatim>\<open>self.camera\<close> after
  the backends were tried. Without an opened device \<^verbatim>\<open>run\<close> returns through its
  \<^verbatim>\<open>finally\<close> clause, which calls \<^verbatim>\<open>stop\<close>.
\<close>

definition run_open :: "'f camera_thread \<Rightarrow> bool option \<Rightarrow> 'f camera_thread" where
  "run_open ct cam =
     (if phase ct \<noteq> Opening then ct
      else let ct1 = ct\<lparr>camera := cam\<rparr>
           in if cam = Some True then ct1\<lparr>phase := Looping\<rparr>
              else (stop ct1)\<lparr>phase := Finished\<rparr>)"

text \<open>
  One test of \<^verbatim>\<open>while self.running\<close> by a thread inside the loop: the body when the
  flag is set, otherwise the \<^verbatim>\<open>finally\<close> clause, which calls \<^verbatim>\<open>stop\<close>, and the end
  of \<^verbatim>\<open>run\<close>.
\<close>

definition loop_step :: "'f camera_thread \<Rightarrow> bool \<Rightarrow> 'f \<Rightarrow> 'f camera_thread option" where
  "loop_step ct ret frame =
     (if phase ct \<noteq> Looping then Some ct
      else if running ct then run_iteration ct ret frame
      else Some ((stop ct)\<lparr>phase := Finished\<rparr>))"

text \<open>\<^verbatim>\<open>get_frame()\<close>, lines 289-294: \<^verbatim>\<open>None\<close> when \<^verbatim>\<open>get_nowait\<close> raises.\<close>

definition get_frame :: "'f camera_thread \<Rightarrow> 'f option \<times> 'f camera_thread" where
  "get_frame ct =
     (case queue_get_nowait (frame_queue ct) of
        None \<Rightarrow> (None, ct)
      | Some (f, q) \<Rightarrow> (Some f, ct\<lparr>frame_queue := q\<rparr>))"

section \<open>Notification dispatcher (class AudioManager of jiance1.py)\<close>

text \<open>
  Python's \<^verbatim>\<open>str.strip()\<close> on 8-bit characters: the characters for which
  \<^verbatim>\<open>str.isspace\<close> holds are removed from both ends.
\<close>

definition isspace :: "char \<Rightarrow> bool" where
  "isspace c = ((of_char c :: nat) \<in> {9, 10, 11, 12, 13, 28, 29, 30, 31, 32, 133, 160})"

definition strip :: "string \<Rightarrow> string" where
  "strip s = rev (dropWhile isspace (rev (dropWhile isspace s)))"

text \<open>
  The fields of \<^verbatim>\<open>AudioManager\<close>: whether \<^verbatim>\<open>self.engine\<close> is an object, the flag
  \<^verbatim>\<open>initialized\<close>, the queue and the speaking flag. The speech engine is outside the
  repository; two more fields record what it was asked to do: \<open>sink_calls\<close> lists the texts
  passed to \<^verbatim>\<open>engine.say\<close>, oldest first, and \<open>sink_playing\<close> the utterances the engine
  has got and not finished.
\<close>

record audio_manager =
  engine :: bool
  initialized :: bool
  message_queue :: "string list"
  is_speaking :: bool
  sink_calls :: "string list"
  sink_playing :: "string list"

text \<open>\<^verbatim>\<open>__init__\<close>: the two flags are the outcome of \<^verbatim>\<open>_init_audio\<close>.\<close>

definition audio_manager_init :: "bool \<Rightarrow> bool \<Rightarrow> audio_manager" where
  "audio_manager_init eng ini =
     \<lparr>engine = eng, initialized = ini, message_queue = [], is_speaking = False,
      sink_calls = [], sink_playing = []\<rparr>"

text \<open>
  What the two engine calls in the \<^verbatim>\<open>try\<close> block of \<^verbatim>\<open>_speak_direct\<close> can do: both
  return; \<^verbatim>\<open>engine.say\<close> raises, so that the engine never got the text; or
  \<^verbatim>\<open>engine.say\<close> returns and \<^verbatim>\<open>engine.runAndWait\<close> raises, so that the engine has the
  text although the hand-over failed.
\<close>

datatype handover = Returned | Say_raised | Run_raised

text \<open>
  \<^verbatim>\<open>_speak_direct(text)\<close>, lines 105-122, with the outcome \<open>ok\<close> of the engine calls. The
  speaking flag is set before the calls, and the handler of an exception clears it. The
  engine plays asynchronously and reports the end of an utterance later through the
  callback.
\<close>

definition speak_direct :: "audio_manager \<Rightarrow> string \<Rightarrow> handover \<Rightarrow> audio_manager" where
  "speak_direct a text ok =
     (if \<not> initialized a \<or> \<not> engine a then a
      else case ok of
             Returned \<Rightarrow>
               a\<lparr>is_speaking := True, sink_calls := sink_calls a @ [text],
                 sink_playing := sink_playing a @ [text]\<rparr>
           | Say_raised \<Rightarrow>
               a\<lparr>is_speaking := False, sink_calls := sink_calls a @ [text]\<rparr>
           | Run_raised \<Rightarrow>
               a\<lparr>is_speaking := False, sink_calls := sink_calls a @ [text],
                 sink_playing := sink_playing a @ [text]\<rparr>)"

text \<open>\<^verbatim>\<open>_process_next_message()\<close>, lines 99-103.\<close>

definition process_next_message :: "audio_manager \<Rightarrow> handover \<Rightarrow> audio_manager" where
  "process_next_message a ok =
     (case message_queue a of
        [] \<Rightarrow> a
      | m # ms \<Rightarrow> if is_speaking a then a else speak_direct (a\<lparr>message_queue := ms\<rparr>) m ok)"

text \<open>\<^verbatim>\<open>_on_speech_end(name, completed)\<close>, lines 90-97 (the pause has no effect on the state).\<close>

definition on_speech_end :: "audio_manager \<Rightarrow> handover \<Rightarrow> audio_manager" where
  "on_speech_end a ok =
     (let a1 = a\<lparr>is_speaking := False\<rparr>
      in if message_queue a1 \<noteq> [] then process_next_message a1 ok else a1)"

text \<open>\<^verbatim>\<open>speak(text)\<close>, lines 137-161; \<open>None\<close> is Python's \<^verbatim>\<open>None\<close>.\<close>

definition speak :: "audio_manager \<Rightarrow> string option \<Rightarrow> handover \<Rightarrow> audio_manager" where
  "speak a text ok =
     (if \<not> initialized a \<or> \<not> engine a then a
      else case text of
             None \<Rightarrow> a
           | Some t \<Rightarrow>
               if t = [] \<or> length (strip t) = 0 then a
               else let a1 = a\<lparr>message_queue := message_queue a @ [t]\<rparr>
                    in if \<not> is_speaking a1 then process_next_message a1 ok else a1)"

text \<open>
  The operations that reach the dispatcher: a call of \<^verbatim>\<open>speak\<close>, and a call of
  \<^verbatim>\<open>_on_speech_end\<close> by the engine. Each carries the outcome of the hand-over it may
  make. A callback also tells whether the engine has finished, and so dropped, the oldest
  utterance it held before it called.
\<close>

datatype dispatcher_event = Enqueue "string option" handover | SpeechEnd bool handover

definition sink_finish :: "audio_manager \<Rightarrow> audio_manager" where
  "sink_finish a = a\<lparr>sink_playing := drop 1 (sink_playing a)\<rparr>"

fun dispatcher_step :: "audio_manager \<Rightarrow> dispatcher_event \<Rightarrow> audio_manager" where
  "dispatcher_step a (Enqueue text ok) = speak a text ok"
| "dispatcher_step a (SpeechEnd ended ok) =
     on_speech_end (if ended then sink_finish a else a) ok"

fun dispatcher_run :: "audio_manager \<Rightarrow> dispatcher_event list \<Rightarrow> audio_manager" where
  "dispatcher_run a [] = a"
| "dispatcher_run a (e # es) = dispatcher_run (dispatcher_step a e) es"

text \<open>The texts of a list of events that \<^verbatim>\<open>speak\<close> puts into the queue, in call order.\<close>

fun accepted_texts :: "dispatcher_event list \<Rightarrow> string list" where
  "accepted_texts [] = []"
| "accepted_texts (Enqueue (Some t) ok # es) =
     (if t = [] \<or> length (strip t) = 0 then accepted_texts es else t # accepted_texts es)"
| "accepted_texts (e # es) = accepted_texts es"

text \<open>
  The contract of the speech engine, event by event: a hand-over either returns or fails
  before the engine got the text, and the callback comes when the engine has finished an
  utterance.
\<close>

fun engine_contract :: "dispatcher_event \<Rightarrow> bool" where
  "engine_contract (Enqueue text ok) = (ok \<noteq> Run_raised)"
| "engine_contract (SpeechEnd ended ok) = (ended \<and> ok \<noteq> Run_raised)"

text \<open>The events of a run in which, moreover, no hand-over fails.\<close>

fun handover_returns :: "dispatcher_event \<Rightarrow> bool" where
  "handover_returns (Enqueue text ok) = (ok = Returned)"
| "handover_returns (SpeechEnd ended ok) = (ended \<and> ok = Returned)"

section \<open>Processing loop (class PillDetectorApp of jiance1.py)\<close>

text \<open>
  The calls the loop makes on the monitor and the dispatcher when a target is confirmed, in
  the order in which it makes them.
\<close>

datatype call = Call_play_beep | Call_speak string | Call_mark_notification_triggered

record app =
  watermark_of :: watermark
  audio_manager_of :: audio_manager
  calls :: "call list"

text \<open>
  What one tick reads from its environment: the clock and the random draw of
  \<^verbatim>\<open>update_stats\<close>, the time stamp of \<^verbatim>\<open>mark_notification_triggered\<close>, the formatted
  announcement (\<open>None\<close> when \<^verbatim>\<open>target_pills_var.get()\<close> raises), and the outcome of a
  hand-over to the speech engine.
\<close>

record env =
  env_clock :: real
  env_draw :: int
  env_stamp :: string
  env_message :: "string option"
  env_sink_ok :: handover

text \<open>
  \<^verbatim>\<open>_trigger_success_notification()\<close>, lines 1900-1925: the chime, the announcement, the
  acknowledgement; an exception ends the body.
\<close>

definition trigger_success_notification :: "app \<Rightarrow> env \<Rightarrow> app" where
  "trigger_success_notification ap e =
     (let ap1 = ap\<lparr>calls := calls ap @ [Call_play_beep]\<rparr>
      in case env_message e of
           None \<Rightarrow> ap1
         | Some m \<Rightarrow>
             (let ap2 = ap1\<lparr>audio_manager_of := speak (audio_manager_of ap1) (Some m) (env_sink_ok e),
                            calls := calls ap1 @ [Call_speak m]\<rparr>
              in ap2\<lparr>watermark_of := mark_notification_triggered (watermark_of ap2) (env_stamp e),
                     calls := calls ap2 @ [Call_mark_notification_triggered]\<rparr>))"

text \<open>
  The detection of one tick: switched off, no usable result (an empty result list), or the
  number of boxes found.
\<close>

datatype detection = Detection_off | No_results | Boxes nat

text \<open>
  \<^verbatim>\<open>_update_video()\<close>, lines 2027-2054, for a tick that got a frame: the statistics are
  updated with the number of boxes, or with 0 when detection is off, and a true result of
  \<^verbatim>\<open>update_stats\<close> triggers the notification.
\<close>

definition update_video :: "app \<Rightarrow> detection \<Rightarrow> env \<Rightarrow> app" where
  "update_video ap d e =
     (case d of
        Detection_off \<Rightarrow>
          ap\<lparr>watermark_of := snd (update_stats (watermark_of ap) 0 (env_clock e) (env_draw e))\<rparr>
      | No_results \<Rightarrow> ap
      | Boxes n \<Rightarrow>
          (let (r, w') = update_stats (watermark_of ap) (int n) (env_clock e) (env_draw e);
               ap1 = ap\<lparr>watermark_of := w'\<rparr>
           in if r then trigger_success_notification ap1 e else ap1))"

text \<open>\<open>precedes x y cs\<close>: \<open>x\<close> occurs in \<open>cs\<close>, and \<open>y\<close> occurs after the first \<open>x\<close>.\<close>

definition precedes :: "'a \<Rightarrow> 'a \<Rightarrow> 'a list \<Rightarrow> bool" where
  "precedes x y cs = (y \<in> set (drop 1 (dropWhile (\<lambda>c. c \<noteq> x) cs)))"

section \<open>Properties of the count stability monitor\<close>

lemmas monitor_defs = observe_and_mark_def update_stats_def update_counters_def
  mark_notification_triggered_def Let_def

lemma monitor_outputs_append:
  "monitor_outputs w (xs @ ys) = monitor_outputs w xs @ monitor_outputs (monitor_final w xs) ys"
  by (induction xs arbitrary: w) simp_all

lemma monitor_final_append:
  "monitor_final w (xs @ ys) = monitor_final (monitor_final w xs) ys"
  by (induction xs arbitrary: w) simp_all

lemma length_monitor_outputs: "length (monitor_outputs w xs) = length xs"
  by (induction xs arbitrary: w) simp_all

lemma target_pills_observe: "target_pills (snd (observe_and_mark w ob)) = target_pills w"
  by (simp add: monitor_defs split: prod.splits if_splits)

lemma target_pills_final: "target_pills (monitor_final w obs) = target_pills w"
  by (induction obs arbitrary: w) (simp_all add: target_pills_observe)

text \<open>One call with the count on target, from a state inside an episode.\<close>

lemma observe_in_episode:
  assumes "0 < target_pills w" "count_of ob = target_pills w" "target_reached w"
    "success_message_shown w = notification_triggered w"
  shows "fst (observe_and_mark w ob) =
           (\<not> notification_triggered w \<and>
            real_of_int (target_stable_seconds w) \<le> clock_of ob - target_start_time w)"
    and "target_reached (snd (observe_and_mark w ob))"
    and "target_start_time (snd (observe_and_mark w ob)) = target_start_time w"
    and "target_stable_seconds (snd (observe_and_mark w ob)) = target_stable_seconds w"
    and "notification_triggered (snd (observe_and_mark w ob)) =
           (notification_triggered w \<or> fst (observe_and_mark w ob))"
    and "success_message_shown (snd (observe_and_mark w ob)) =
           notification_triggered (snd (observe_and_mark w ob))"
  using assms by (auto simp add: monitor_defs)

lemma observe_episode_start:
  assumes "0 < target_pills w" "count_of ob = target_pills w" "\<not> target_reached w"
  shows "fst (observe_and_mark w ob) = False"
    and "target_reached (snd (observe_and_mark w ob))"
    and "target_start_time (snd (observe_and_mark w ob)) = clock_of ob"
    and "target_stable_seconds (snd (observe_and_mark w ob)) = draw_of ob"
    and "notification_triggered (snd (observe_and_mark w ob)) = False"
    and "success_message_shown (snd (observe_and_mark w ob)) = False"
  using assms by (auto simp add: monitor_defs)

lemma observe_off_target:
  assumes "0 < target_pills w" "count_of ob \<noteq> target_pills w"
  shows "fst (observe_and_mark w ob) = False"
    and "target_reached (snd (observe_and_mark w ob)) = False"
    and "target_start_time (snd (observe_and_mark w ob)) = 0"
    and "notification_triggered (snd (observe_and_mark w ob)) = False"
    and "success_message_shown (snd (observe_and_mark w ob)) = False"
    and "success_timestamp (snd (observe_and_mark w ob)) = ''''"
    and "target_stable_seconds (snd (observe_and_mark w ob)) = target_stable_seconds w"
  using assms by (auto simp add: monitor_defs)

lemma episode_run:
  assumes "0 < target_pills w" "\<forall>m\<in>set mid. count_of m = target_pills w" "target_reached w"
    "success_message_shown w = notification_triggered w"
  shows "target_reached (monitor_final w mid)
       \<and> target_start_time (monitor_final w mid) = target_start_time w
       \<and> target_stable_seconds (monitor_final w mid) = target_stable_seconds w
       \<and> notification_triggered (monitor_final w mid) =
           (notification_triggered w \<or> True \<in> set (monitor_outputs w mid))
       \<and> success_message_shown (monitor_final w mid) =
           notification_triggered (monitor_final w mid)"
  using assms
proof (induction mid arbitrary: w)
  case Nil
  then show ?case by simp
next
  case (Cons m mid)
  let ?w = "snd (observe_and_mark w m)"
  have c: "count_of m = target_pills w" using Cons.prems(2) by simp
  note step = observe_in_episode[OF Cons.prems(1) c Cons.prems(3) Cons.prems(4)]
  have "0 < target_pills ?w" "\<forall>m\<in>set mid. count_of m = target_pills ?w"
    using Cons.prems(1,2) by (simp_all add: target_pills_observe)
  from Cons.IH[OF this step(2) step(6)] show ?case
    using step(3,4,5) by auto
qed

lemma not_reached_after_prefix:
  assumes "0 < target_pills w" "\<not> target_reached w"
    "pre = [] \<or> count_of (last pre) \<noteq> target_pills w"
  shows "\<not> target_reached (monitor_final w pre)"
proof (cases pre rule: rev_cases)
  case Nil
  then show ?thesis using assms by simp
next
  case (snoc ys y)
  have "0 < target_pills (monitor_final w ys)" "count_of y \<noteq> target_pills (monitor_final w ys)"
    using assms snoc by (simp_all add: target_pills_final)
  from observe_off_target(2)[OF this] show ?thesis
    by (simp add: snoc monitor_final_append)
qed

text \<open>From any state: a stretch of on-target counts fires at most once.\<close>

lemma fired_stays_quiet:
  assumes "0 < target_pills w" "\<forall>m\<in>set seg. count_of m = target_pills w" "target_reached w"
    "success_message_shown w \<or> notification_triggered w"
  shows "True \<notin> set (monitor_outputs w seg)"
  using assms
proof (induction seg arbitrary: w)
  case Nil
  then show ?case by simp
next
  case (Cons m seg)
  let ?w = "snd (observe_and_mark w m)"
  have c: "count_of m = target_pills w" using Cons.prems(2) by simp
  have out: "\<not> fst (observe_and_mark w m)"
    and st: "target_reached ?w" "success_message_shown ?w \<or> notification_triggered ?w"
    using Cons.prems(1,3,4) c by (auto simp add: monitor_defs)
  have "0 < target_pills ?w" "\<forall>m\<in>set seg. count_of m = target_pills ?w"
    using Cons.prems(1,2) by (simp_all add: target_pills_observe)
  from Cons.IH[OF this st] out show ?case by simp
qed

lemma fired_state:
  assumes "fst (observe_and_mark w m)"
  shows "target_reached (snd (observe_and_mark w m))
       \<and> notification_triggered (snd (observe_and_mark w m))"
  using assms by (auto simp add: monitor_defs split: if_splits)

lemma count_list_no_True: "True \<notin> set bs \<Longrightarrow> count_list bs True = 0"
  by (induction bs) auto

lemma at_most_one_fire:
  assumes "0 < target_pills w" "\<forall>m\<in>set seg. count_of m = target_pills w"
  shows "count_list (monitor_outputs w seg) True \<le> 1"
  using assms
proof (induction seg arbitrary: w)
  case Nil
  then show ?case by simp
next
  case (Cons m seg)
  let ?w = "snd (observe_and_mark w m)"
  have t: "0 < target_pills ?w" "\<forall>m\<in>set seg. count_of m = target_pills ?w"
    using Cons.prems by (simp_all add: target_pills_observe)
  show ?case
  proof (cases "fst (observe_and_mark w m)")
    case True
    from fired_state[OF True] have "target_reached ?w" "success_message_shown ?w \<or> notification_triggered ?w"
      by simp_all
    from fired_stays_quiet[OF t this] have "count_list (monitor_outputs ?w seg) True = 0"
      by (rule count_list_no_True)
    then show ?thesis using True by simp
  next
    case False
    then show ?thesis using Cons.IH[OF t] by simp
  qed
qed

text \<open>
  The result of the call on the last frame of a sequence is the value \<^verbatim>\<open>update_stats\<close>
  returns in the state the earlier frames left, and the acknowledgement follows exactly the
  true results.
\<close>

lemma last_monitor_output:
  "last (monitor_outputs w (pre @ [ob])) =
     fst (update_stats (monitor_final w pre) (count_of ob) (clock_of ob) (draw_of ob))"
  by (simp add: monitor_outputs_append observe_and_mark_def split: prod.splits)

lemma monitor_final_snoc:
  "monitor_final w (pre @ [ob]) =
     (if fst (update_stats (monitor_final w pre) (count_of ob) (clock_of ob) (draw_of ob))
      then mark_notification_triggered
             (snd (update_stats (monitor_final w pre) (count_of ob) (clock_of ob) (draw_of ob)))
             (stamp_of ob)
      else snd (update_stats (monitor_final w pre) (count_of ob) (clock_of ob) (draw_of ob)))"
  by (simp add: monitor_final_append observe_and_mark_def split: prod.splits)

text \<open>
  Claim C1. Fixed target \<open>T > 0\<close>, the monitor started by \<^verbatim>\<open>set_target_pills\<close>, any
  sequence of frames with any clock readings and draws. The call protocol is that of the
  processing loop: \<^verbatim>\<open>update_stats\<close> is called once per frame, and
  \<^verbatim>\<open>mark_notification_triggered\<close> is called directly after every call that returned true
  and after no other; the last two conjuncts say so of the runs the theorem is about.

  First conjunct: within any stretch \<open>seg\<close> of frames whose counts all equal \<open>T\<close>, wherever
  it lies in the sequence, at most one call returns true. Second conjunct: for a run that
  begins with frame \<open>ob0\<close> (the sequence starts there or the frame before it is off target)
  and continues on target through \<open>mid\<close> to \<open>ob\<close>, the call on \<open>ob\<close> returns true exactly
  when the settle duration drawn at \<open>ob0\<close> has elapsed since the clock reading of \<open>ob0\<close> and
  no earlier call of the run returned true; so it returns false before that threshold.
  Third conjunct: the call on the first frame \<open>ob0\<close> of a run returns false, whatever was
  drawn there. Fourth conjunct: a call with a count off target returns false.
\<close>

theorem monitor_fires_once_after_settle:
  assumes "0 < T"
  shows "(\<forall>pre seg. (\<forall>ob\<in>set seg. count_of ob = T) \<longrightarrow>
            count_list (drop (length pre) (monitor_outputs (set_target_pills T w) (pre @ seg))) True \<le> 1)
       \<and> (\<forall>pre ob0 mid ob.
            (pre = [] \<or> count_of (last pre) \<noteq> T) \<and> count_of ob0 = T
              \<and> (\<forall>m\<in>set mid. count_of m = T) \<and> count_of ob = T \<longrightarrow>
            last (monitor_outputs (set_target_pills T w) (pre @ ob0 # mid @ [ob])) =
              (real_of_int (draw_of ob0) \<le> clock_of ob - clock_of ob0
               \<and> True \<notin> set (drop (length pre)
                               (monitor_outputs (set_target_pills T w) (pre @ ob0 # mid)))))
       \<and> (\<forall>pre ob0.
            (pre = [] \<or> count_of (last pre) \<noteq> T) \<and> count_of ob0 = T \<longrightarrow>
            \<not> last (monitor_outputs (set_target_pills T w) (pre @ [ob0])))
       \<and> (\<forall>pre ob.
            count_of ob \<noteq> T \<longrightarrow> \<not> last (monitor_outputs (set_target_pills T w) (pre @ [ob])))
       \<and> (\<forall>pre ob.
            last (monitor_outputs (set_target_pills T w) (pre @ [ob])) =
              fst (update_stats (monitor_final (set_target_pills T w) pre)
                     (count_of ob) (clock_of ob) (draw_of ob)))
       \<and> (\<forall>pre ob.
            monitor_final (set_target_pills T w) (pre @ [ob]) =
              (if last (monitor_outputs (set_target_pills T w) (pre @ [ob]))
               then mark_notification_triggered
                      (snd (update_stats (monitor_final (set_target_pills T w) pre)
                              (count_of ob) (clock_of ob) (draw_of ob)))
                      (stamp_of ob)
               else snd (update_stats (monitor_final (set_target_pills T w) pre)
                           (count_of ob) (clock_of ob) (draw_of ob))))"
proof -
  let ?w0 = "set_target_pills T w"
  have w0: "target_pills ?w0 = T" "\<not> target_reached ?w0"
    by (simp_all add: set_target_pills_def)
  have c1: "\<forall>pre seg. (\<forall>ob\<in>set seg. count_of ob = T) \<longrightarrow>
            count_list (drop (length pre) (monitor_outputs ?w0 (pre @ seg))) True \<le> 1"
  proof (intro allI impI)
    fix pre seg
    assume seg: "\<forall>ob\<in>set seg. count_of ob = T"
    have "0 < target_pills (monitor_final ?w0 pre)"
      "\<forall>m\<in>set seg. count_of m = target_pills (monitor_final ?w0 pre)"
      using assms seg w0 by (simp_all add: target_pills_final)
    from at_most_one_fire[OF this]
    show "count_list (drop (length pre) (monitor_outputs ?w0 (pre @ seg))) True \<le> 1"
      by (simp add: monitor_outputs_append length_monitor_outputs)
  qed
  have c2: "\<forall>pre ob0 mid ob.
            (pre = [] \<or> count_of (last pre) \<noteq> T) \<and> count_of ob0 = T
              \<and> (\<forall>m\<in>set mid. count_of m = T) \<and> count_of ob = T \<longrightarrow>
            last (monitor_outputs ?w0 (pre @ ob0 # mid @ [ob])) =
              (real_of_int (draw_of ob0) \<le> clock_of ob - clock_of ob0
               \<and> True \<notin> set (drop (length pre) (monitor_outputs ?w0 (pre @ ob0 # mid))))"
  proof (intro allI impI)
    fix pre ob0 mid ob
    assume h: "(pre = [] \<or> count_of (last pre) \<noteq> T) \<and> count_of ob0 = T
              \<and> (\<forall>m\<in>set mid. count_of m = T) \<and> count_of ob = T"
    let ?w1 = "monitor_final ?w0 pre"
    let ?w2 = "snd (observe_and_mark ?w1 ob0)"
    let ?w3 = "monitor_final ?w2 mid"
    have t1: "0 < target_pills ?w1" "count_of ob0 = target_pills ?w1"
      using assms h w0 by (simp_all add: target_pills_final)
    have nr: "\<not> target_reached ?w1"
      using not_reached_after_prefix[of ?w0 pre] assms h w0 by simp
    note s = observe_episode_start[OF t1 nr]
    have t2: "0 < target_pills ?w2" "\<forall>m\<in>set mid. count_of m = target_pills ?w2"
      using t1 h by (simp_all add: target_pills_observe)
    have eq2: "success_message_shown ?w2 = notification_triggered ?w2"
      using s(5,6) by simp
    note e = episode_run[OF t2 s(2) eq2]
    have t3: "0 < target_pills ?w3" "count_of ob = target_pills ?w3"
      using t2 h t1 by (simp_all add: target_pills_final target_pills_observe)
    have r3: "target_reached ?w3" and eq3: "success_message_shown ?w3 = notification_triggered ?w3"
      using e by simp_all
    have "fst (observe_and_mark ?w3 ob) =
            (\<not> notification_triggered ?w3 \<and>
             real_of_int (target_stable_seconds ?w3) \<le> clock_of ob - target_start_time ?w3)"
      by (rule observe_in_episode(1)[OF t3 r3 eq3])
    also have "\<dots> = (real_of_int (draw_of ob0) \<le> clock_of ob - clock_of ob0
               \<and> True \<notin> set (monitor_outputs ?w2 mid))"
      using e s by auto
    finally have main: "fst (observe_and_mark ?w3 ob) =
            (real_of_int (draw_of ob0) \<le> clock_of ob - clock_of ob0
               \<and> True \<notin> set (monitor_outputs ?w2 mid))" .
    have l: "last (monitor_outputs ?w0 (pre @ ob0 # mid @ [ob])) = fst (observe_and_mark ?w3 ob)"
      by (simp add: monitor_outputs_append monitor_final_append)
    have d: "drop (length pre) (monitor_outputs ?w0 (pre @ ob0 # mid)) =
               fst (observe_and_mark ?w1 ob0) # monitor_outputs ?w2 mid"
      by (simp add: monitor_outputs_append length_monitor_outputs)
    show "last (monitor_outputs ?w0 (pre @ ob0 # mid @ [ob])) =
              (real_of_int (draw_of ob0) \<le> clock_of ob - clock_of ob0
               \<and> True \<notin> set (drop (length pre) (monitor_outputs ?w0 (pre @ ob0 # mid))))"
      using main l d s(1) by simp
  qed
  have c3: "\<forall>pre ob0.
            (pre = [] \<or> count_of (last pre) \<noteq> T) \<and> count_of ob0 = T \<longrightarrow>
            \<not> last (monitor_outputs ?w0 (pre @ [ob0]))"
  proof (intro allI impI)
    fix pre ob0
    assume h: "(pre = [] \<or> count_of (last pre) \<noteq> T) \<and> count_of ob0 = T"
    let ?w1 = "monitor_final ?w0 pre"
    have t1: "0 < target_pills ?w1" "count_of ob0 = target_pills ?w1"
      using assms h w0 by (simp_all add: target_pills_final)
    have nr: "\<not> target_reached ?w1"
      using not_reached_after_prefix[of ?w0 pre] assms h w0 by simp
    have "fst (observe_and_mark ?w1 ob0) = False"
      by (rule observe_episode_start(1)[OF t1 nr])
    then show "\<not> last (monitor_outputs ?w0 (pre @ [ob0]))"
      by (simp add: monitor_outputs_append)
  qed
  have c4: "\<forall>pre ob. count_of ob \<noteq> T \<longrightarrow> \<not> last (monitor_outputs ?w0 (pre @ [ob]))"
  proof (intro allI impI)
    fix pre ob
    assume h: "count_of ob \<noteq> T"
    let ?w1 = "monitor_final ?w0 pre"
    have t1: "0 < target_pills ?w1" "count_of ob \<noteq> target_pills ?w1"
      using assms h w0 by (simp_all add: target_pills_final)
    have "fst (observe_and_mark ?w1 ob) = False"
      by (rule observe_off_target(1)[OF t1])
    then show "\<not> last (monitor_outputs ?w0 (pre @ [ob]))"
      by (simp add: monitor_outputs_append)
  qed
  have c5: "\<forall>pre ob.
            last (monitor_outputs ?w0 (pre @ [ob])) =
              fst (update_stats (monitor_final ?w0 pre) (count_of ob) (clock_of ob) (draw_of ob))"
    by (intro allI) (rule last_monitor_output)
  have c6: "\<forall>pre ob.
            monitor_final ?w0 (pre @ [ob]) =
              (if last (monitor_outputs ?w0 (pre @ [ob]))
               then mark_notification_triggered
                      (snd (update_stats (monitor_final ?w0 pre)
                              (count_of ob) (clock_of ob) (draw_of ob)))
                      (stamp_of ob)
               else snd (update_stats (monitor_final ?w0 pre)
                           (count_of ob) (clock_of ob) (draw_of ob)))"
    unfolding last_monitor_output by (intro allI) (rule monitor_final_snoc)
  show ?thesis
    by (rule conjI[OF c1 conjI[OF c2 conjI[OF c3 conjI[OF c4 conjI[OF c5 c6]]]]])
qed

text \<open>
  Claim C1 at the frames of the scenario: the second run (frames 5 to 8) fires once, its
  first frame does not fire, and its third frame is the one that fires.
\<close>

theorem monitor_fires_once_after_settle_witness:
  "(0::int) < 5
   \<and> map count_of (drop 4 scenario_frames) = [5, 5, 5, 5]
   \<and> count_list (drop 4 (monitor_outputs (set_target_pills 5 (watermark_init ''x'')) scenario_frames)) True \<le> 1
   \<and> count_of (last (take 4 scenario_frames)) \<noteq> 5
   \<and> last (monitor_outputs (set_target_pills 5 (watermark_init ''x'')) (take 5 scenario_frames)) = False
   \<and> last (monitor_outputs (set_target_pills 5 (watermark_init ''x'')) (take 7 scenario_frames)) = True"
proof -
  have T: "(0::int) < 5" by simp
  have t: "take 7 scenario_frames = take 4 scenario_frames @ Obs 5 104 2 ''e'' # [Obs 5 105 2 ''f''] @ [Obs 5 106 2 ''g'']"
    by (simp add: scenario_frames_def)
  have t5: "take 5 scenario_frames = take 4 scenario_frames @ [Obs 5 104 2 ''e'']"
    by (simp add: scenario_frames_def)
  have seg: "\<forall>ob\<in>set (drop 4 scenario_frames). count_of ob = 5"
    by (simp add: scenario_frames_def)
  have pre: "count_of (last (take 4 scenario_frames)) \<noteq> 5"
    by (simp add: scenario_frames_def)
  note inst = monitor_fires_once_after_settle[OF T, of "watermark_init ''x''"]
  from inst[THEN conjunct1, THEN spec[where x="take 4 scenario_frames"],
      THEN spec[where x="drop 4 scenario_frames"], THEN mp, OF seg]
  have a: "count_list (drop 4 (monitor_outputs (set_target_pills 5 (watermark_init ''x'')) scenario_frames)) True \<le> 1"
    by (simp add: scenario_frames_def)
  have e: "monitor_outputs (set_target_pills 5 (watermark_init ''x'')) (take 4 scenario_frames @ [Obs 5 104 2 ''e'', Obs 5 105 2 ''f''])
      = [False, False, True, False, False, False]"
    by (simp add: scenario_frames_def set_target_pills_def watermark_init_def monitor_defs)
  from inst[THEN conjunct2, THEN conjunct1, THEN spec[where x="take 4 scenario_frames"],
      THEN spec[where x="Obs 5 104 2 ''e''"], THEN spec[where x="[Obs 5 105 2 ''f'']"],
      THEN spec[where x="Obs 5 106 2 ''g''"]]
  have b: "last (monitor_outputs (set_target_pills 5 (watermark_init ''x'')) (take 7 scenario_frames)) = True"
    using pre e unfolding t by (simp add: scenario_frames_def)
  have h3: "(take 4 scenario_frames = [] \<or> count_of (last (take 4 scenario_frames)) \<noteq> 5)
      \<and> count_of (Obs 5 104 2 ''e'') = 5"
    using pre by simp
  from inst[THEN conjunct2, THEN conjunct2, THEN conjunct1,
      THEN spec[where x="take 4 scenario_frames"], THEN spec[where x="Obs 5 104 2 ''e''"],
      THEN mp, OF h3]
  have c: "last (monitor_outputs (set_target_pills 5 (watermark_init ''x'')) (take 5 scenario_frames)) = False"
    unfolding t5 by simp
  have m: "map count_of (drop 4 scenario_frames) = [5, 5, 5, 5]"
    by (simp add: scenario_frames_def)
  show ?thesis using T m a pre b c by blast
qed

text \<open>
  Claim C2, amended. Target 5, settle duration 2 s, counts 5,5,5,4,5,5,5,5 at one-second
  intervals: the monitor fires at the 3rd frame (2 s after the first run began, and the test
  is \<open>\<ge>\<close>) and again at the 7th frame, and at no other frame.
\<close>

theorem scenario_outputs:
  "monitor_outputs (set_target_pills 5 (watermark_init ''x'')) scenario_frames =
     [False, False, True, False, False, False, True, False]"
  by (simp add: scenario_frames_def set_target_pills_def watermark_init_def monitor_defs)

text \<open>
  Claim C2 as stated (fires at the 7th frame and not at the 3rd) fails: the 3rd frame fires.
\<close>

theorem scenario_fires_at_third_frame:
  "\<not> (monitor_outputs (set_target_pills 5 (watermark_init ''x'')) scenario_frames ! 6
      \<and> \<not> monitor_outputs (set_target_pills 5 (watermark_init ''x'')) scenario_frames ! 2)"
  by (simp add: scenario_frames_def set_target_pills_def watermark_init_def monitor_defs)

section \<open>Divergence, target changes and the invariant of the stability state\<close>

lemma not_reached_after_divergence:
  assumes "0 < target_pills w" "pre \<noteq> []" "count_of (last pre) \<noteq> target_pills w"
  shows "\<not> target_reached (monitor_final w pre)"
proof (cases pre rule: rev_cases)
  case Nil
  then show ?thesis using assms by simp
next
  case (snoc ys y)
  have "0 < target_pills (monitor_final w ys)" "count_of y \<noteq> target_pills (monitor_final w ys)"
    using assms snoc by (simp_all add: target_pills_final)
  from observe_off_target(2)[OF this] show ?thesis
    by (simp add: snoc monitor_final_append)
qed

text \<open>
  Two states that agree on the target and the three flags, and on the timers whenever the
  reached flag is set, answer every sequence of frames alike: the timers are read only
  inside an episode.
\<close>

lemma observe_similar:
  assumes "target_pills w' = target_pills w" "target_reached w' = target_reached w"
    "success_message_shown w' = success_message_shown w"
    "notification_triggered w' = notification_triggered w"
    "target_reached w \<longrightarrow>
       target_start_time w' = target_start_time w
       \<and> target_stable_seconds w' = target_stable_seconds w"
  shows "fst (observe_and_mark w' ob) = fst (observe_and_mark w ob)"
    and "target_pills (snd (observe_and_mark w' ob)) = target_pills (snd (observe_and_mark w ob))"
    and "target_reached (snd (observe_and_mark w' ob)) = target_reached (snd (observe_and_mark w ob))"
    and "success_message_shown (snd (observe_and_mark w' ob)) =
           success_message_shown (snd (observe_and_mark w ob))"
    and "notification_triggered (snd (observe_and_mark w' ob)) =
           notification_triggered (snd (observe_and_mark w ob))"
    and "target_reached (snd (observe_and_mark w ob)) \<longrightarrow>
            target_start_time (snd (observe_and_mark w' ob)) =
              target_start_time (snd (observe_and_mark w ob))
            \<and> target_stable_seconds (snd (observe_and_mark w' ob)) =
                target_stable_seconds (snd (observe_and_mark w ob))"
  using assms by (auto simp add: monitor_defs)

lemma outputs_similar:
  assumes "target_pills w' = target_pills w" "target_reached w' = target_reached w"
    "success_message_shown w' = success_message_shown w"
    "notification_triggered w' = notification_triggered w"
    "target_reached w \<longrightarrow>
       target_start_time w' = target_start_time w
       \<and> target_stable_seconds w' = target_stable_seconds w"
  shows "monitor_outputs w' obs = monitor_outputs w obs"
  using assms
proof (induction obs arbitrary: w w')
  case Nil
  then show ?case by simp
next
  case (Cons ob obs)
  note s = observe_similar[OF Cons.prems, of ob]
  have "monitor_outputs (snd (observe_and_mark w' ob)) obs =
        monitor_outputs (snd (observe_and_mark w ob)) obs"
    by (rule Cons.IH[OF s(2-6)])
  then show ?case using s(1) by simp
qed

text \<open>
  Claim C4, amended. Target \<open>T > 0\<close>, any state of the monitor. First conjunct: a frame whose
  count differs from \<open>T\<close> clears the reached flag, the start time, both notification flags and
  the success time stamp, whether or not the settle duration had elapsed; the stored settle
  duration keeps its value, which is not read again: the monitor answers every later
  sequence of frames as it would with that field at 0. Second conjunct: after a history \<open>pre\<close> that ends off target, the
  next frame \<open>ob1\<close> on target starts an episode: the call returns false, the start time is
  the clock reading of \<open>ob1\<close>, the settle duration is the value drawn at \<open>ob1\<close>, the
  notification flags are clear; and after any further on-target frames \<open>mid\<close>, whatever the
  generator would have returned at them, start time and settle duration are still those of
  \<open>ob1\<close>.
\<close>

theorem divergence_resets_and_redraws:
  assumes "0 < target_pills w"
  shows "(\<forall>ob. count_of ob \<noteq> target_pills w \<longrightarrow>
            \<not> target_reached (snd (observe_and_mark w ob))
            \<and> target_start_time (snd (observe_and_mark w ob)) = 0
            \<and> \<not> notification_triggered (snd (observe_and_mark w ob))
            \<and> \<not> success_message_shown (snd (observe_and_mark w ob))
            \<and> success_timestamp (snd (observe_and_mark w ob)) = []
            \<and> target_stable_seconds (snd (observe_and_mark w ob)) = target_stable_seconds w
            \<and> (\<forall>obs. monitor_outputs
                        ((snd (observe_and_mark w ob))\<lparr>target_stable_seconds := 0\<rparr>) obs =
                      monitor_outputs (snd (observe_and_mark w ob)) obs))
       \<and> (\<forall>pre ob1 mid.
            pre \<noteq> [] \<and> count_of (last pre) \<noteq> target_pills w
              \<and> count_of ob1 = target_pills w \<and> (\<forall>m\<in>set mid. count_of m = target_pills w) \<longrightarrow>
            \<not> last (monitor_outputs w (pre @ [ob1]))
            \<and> target_reached (monitor_final w (pre @ [ob1]))
            \<and> target_start_time (monitor_final w (pre @ [ob1])) = clock_of ob1
            \<and> target_stable_seconds (monitor_final w (pre @ [ob1])) = draw_of ob1
            \<and> \<not> notification_triggered (monitor_final w (pre @ [ob1]))
            \<and> \<not> success_message_shown (monitor_final w (pre @ [ob1]))
            \<and> target_reached (monitor_final w (pre @ ob1 # mid))
            \<and> target_start_time (monitor_final w (pre @ ob1 # mid)) = clock_of ob1
            \<and> target_stable_seconds (monitor_final w (pre @ ob1 # mid)) = draw_of ob1)"
proof (rule conjI; intro allI impI)
  fix ob
  assume "count_of ob \<noteq> target_pills w"
  note r = observe_off_target[OF assms this]
  have z: "monitor_outputs ((snd (observe_and_mark w ob))\<lparr>target_stable_seconds := 0\<rparr>) obs =
           monitor_outputs (snd (observe_and_mark w ob)) obs" for obs
    by (rule outputs_similar) (simp_all add: r)
  show "\<not> target_reached (snd (observe_and_mark w ob))
            \<and> target_start_time (snd (observe_and_mark w ob)) = 0
            \<and> \<not> notification_triggered (snd (observe_and_mark w ob))
            \<and> \<not> success_message_shown (snd (observe_and_mark w ob))
            \<and> success_timestamp (snd (observe_and_mark w ob)) = []
            \<and> target_stable_seconds (snd (observe_and_mark w ob)) = target_stable_seconds w
            \<and> (\<forall>obs. monitor_outputs
                        ((snd (observe_and_mark w ob))\<lparr>target_stable_seconds := 0\<rparr>) obs =
                      monitor_outputs (snd (observe_and_mark w ob)) obs)"
    using r z by simp
next
  fix pre ob1 mid
  assume h: "pre \<noteq> [] \<and> count_of (last pre) \<noteq> target_pills w
              \<and> count_of ob1 = target_pills w \<and> (\<forall>m\<in>set mid. count_of m = target_pills w)"
  let ?w2 = "monitor_final w pre"
  let ?w3 = "snd (observe_and_mark ?w2 ob1)"
  have nr2: "\<not> target_reached ?w2"
    using not_reached_after_divergence[OF assms] h by simp
  have t2: "0 < target_pills ?w2" "count_of ob1 = target_pills ?w2"
    using assms h by (simp_all add: target_pills_final)
  note s = observe_episode_start[OF t2 nr2]
  have t3: "0 < target_pills ?w3" "\<forall>m\<in>set mid. count_of m = target_pills ?w3"
    using assms h by (simp_all add: target_pills_final target_pills_observe)
  have eq3: "success_message_shown ?w3 = notification_triggered ?w3"
    using s(5,6) by simp
  note e = episode_run[OF t3 s(2) eq3]
  have f1: "monitor_final w (pre @ [ob1]) = ?w3"
    by (simp add: monitor_final_append)
  have f2: "monitor_final w (pre @ ob1 # mid) = monitor_final ?w3 mid"
    by (simp add: monitor_final_append)
  have l: "last (monitor_outputs w (pre @ [ob1])) = fst (observe_and_mark ?w2 ob1)"
    by (simp add: monitor_outputs_append)
  show "\<not> last (monitor_outputs w (pre @ [ob1]))
            \<and> target_reached (monitor_final w (pre @ [ob1]))
            \<and> target_start_time (monitor_final w (pre @ [ob1])) = clock_of ob1
            \<and> target_stable_seconds (monitor_final w (pre @ [ob1])) = draw_of ob1
            \<and> \<not> notification_triggered (monitor_final w (pre @ [ob1]))
            \<and> \<not> success_message_shown (monitor_final w (pre @ [ob1]))
            \<and> target_reached (monitor_final w (pre @ ob1 # mid))
            \<and> target_start_time (monitor_final w (pre @ ob1 # mid)) = clock_of ob1
            \<and> target_stable_seconds (monitor_final w (pre @ ob1 # mid)) = draw_of ob1"
    unfolding f1 f2 l using s e by simp
qed

text \<open>
  Claim C4 at a concrete run with target 5: an episode with settle duration 3 is cut short
  by the count 4, which zeroes the start time and leaves the stored duration at 3; after one
  more off-target frame the episode that starts at time 103 draws 2, and the draw 4 offered
  at the next frame is not taken.
\<close>

theorem divergence_resets_and_redraws_witness:
  "(0::int) < target_pills (monitor_final (set_target_pills 5 (watermark_init ''x'')) [Obs 5 100 3 ''a''])
   \<and> target_start_time
        (monitor_final (set_target_pills 5 (watermark_init ''x''))
           [Obs 5 100 3 ''a'', Obs 4 101 5 ''b'']) = 0
   \<and> target_stable_seconds
        (monitor_final (set_target_pills 5 (watermark_init ''x''))
           [Obs 5 100 3 ''a'', Obs 4 101 5 ''b'']) = 3
   \<and> target_stable_seconds
        (monitor_final (set_target_pills 5 (watermark_init ''x''))
           [Obs 5 100 3 ''a'', Obs 4 101 5 ''b'', Obs 0 102 5 ''c'', Obs 5 103 2 ''d'',
            Obs 5 104 4 ''e'']) = 2
   \<and> target_start_time
        (monitor_final (set_target_pills 5 (watermark_init ''x''))
           [Obs 5 100 3 ''a'', Obs 4 101 5 ''b'', Obs 0 102 5 ''c'', Obs 5 103 2 ''d'',
            Obs 5 104 4 ''e'']) = 103"
proof -
  let ?w = "monitor_final (set_target_pills 5 (watermark_init ''x'')) [Obs 5 100 3 ''a'']"
  have t: "target_pills ?w = 5"
    by (simp add: target_pills_observe set_target_pills_def)
  have p: "0 < target_pills ?w"
    unfolding t by simp
  have s3: "target_stable_seconds ?w = 3"
    by (simp add: set_target_pills_def watermark_init_def monitor_defs)
  note inst = divergence_resets_and_redraws[OF p]
  have a: "count_of (Obs 4 101 5 ''b'') \<noteq> target_pills ?w"
    unfolding t by simp
  have b: "[Obs 4 101 5 ''b'', Obs 0 102 5 ''c''] \<noteq> []
      \<and> count_of (last [Obs 4 101 5 ''b'', Obs 0 102 5 ''c'']) \<noteq> target_pills ?w
      \<and> count_of (Obs 5 103 2 ''d'') = target_pills ?w
      \<and> (\<forall>m\<in>set [Obs 5 104 4 ''e'']. count_of m = target_pills ?w)"
    unfolding t by simp
  from inst[THEN conjunct1, THEN spec, THEN mp, OF a]
    inst[THEN conjunct2, THEN spec, THEN spec, THEN spec, THEN mp, OF b] p s3
  show ?thesis by simp
qed

text \<open>
  Claim C4 as stated fails in one field: after the divergence the stored settle duration is
  not back at its initial value.
\<close>

theorem divergence_keeps_settle_duration:
  "target_stable_seconds
     (monitor_final (set_target_pills 5 (watermark_init ''x''))
        [Obs 5 100 3 ''a'', Obs 4 101 2 ''b''])
   \<noteq> target_stable_seconds (watermark_init ''x'')"
  by (simp add: set_target_pills_def watermark_init_def monitor_defs)

lemma disabled_never_fires:
  assumes "target_pills w \<le> 0"
  shows "True \<notin> set (monitor_outputs w obs)"
  using assms
proof (induction obs arbitrary: w)
  case Nil
  then show ?case by simp
next
  case (Cons ob obs)
  have "\<not> fst (observe_and_mark w ob)"
    using Cons.prems by (simp add: monitor_defs)
  moreover have "True \<notin> set (monitor_outputs (snd (observe_and_mark w ob)) obs)"
    by (rule Cons.IH) (simp add: target_pills_observe Cons.prems)
  ultimately show ?case by simp
qed

text \<open>
  Claim C5, amended. \<^verbatim>\<open>set_target_pills(n)\<close> stores the target and clears the reached flag,
  both notification flags and the success time stamp. It leaves the episode start time and
  the settle duration as they were; the stale values are never read, since the monitor
  answers every later sequence of frames as it would with both timers at 0. With target 0
  every later call of \<^verbatim>\<open>update_stats\<close> returns false, whatever the count.
\<close>

theorem set_target_pills_effect:
  "target_pills (set_target_pills n w) = n
   \<and> \<not> target_reached (set_target_pills n w)
   \<and> \<not> success_message_shown (set_target_pills n w)
   \<and> \<not> notification_triggered (set_target_pills n w)
   \<and> success_timestamp (set_target_pills n w) = []
   \<and> target_start_time (set_target_pills n w) = target_start_time w
   \<and> target_stable_seconds (set_target_pills n w) = target_stable_seconds w
   \<and> monitor_outputs (set_target_pills n w) obs =
       monitor_outputs (set_target_pills n (w\<lparr>target_start_time := 0, target_stable_seconds := 0\<rparr>)) obs
   \<and> \<not> fst (update_stats (set_target_pills 0 w) c now d)
   \<and> True \<notin> set (monitor_outputs (set_target_pills 0 w) obs)"
proof -
  have a: "monitor_outputs (set_target_pills n w) obs =
       monitor_outputs (set_target_pills n (w\<lparr>target_start_time := 0, target_stable_seconds := 0\<rparr>)) obs"
    by (rule outputs_similar) (simp_all add: set_target_pills_def)
  have b: "True \<notin> set (monitor_outputs (set_target_pills 0 w) obs)"
    by (rule disabled_never_fires) (simp add: set_target_pills_def)
  have c: "\<not> fst (update_stats (set_target_pills 0 w) c now d)"
    by (simp add: set_target_pills_def update_stats_def update_counters_def Let_def)
  show ?thesis using a b c by (simp add: set_target_pills_def)
qed

text \<open>
  Claim C5 at a concrete state: a target change in the middle of an episode that began at
  time 100 keeps that start time, and with target 0 three later frames all return false.
\<close>

theorem set_target_pills_effect_witness:
  "target_start_time
     (set_target_pills 4 (monitor_final (set_target_pills 5 (watermark_init ''x'')) [Obs 5 100 3 ''a''])) = 100
   \<and> monitor_outputs
       (set_target_pills 0 (monitor_final (set_target_pills 5 (watermark_init ''x'')) [Obs 5 100 3 ''a'']))
       [Obs 0 101 2 ''b'', Obs 5 102 2 ''c'', Obs 0 110 2 ''d''] = [False, False, False]"
proof -
  let ?w = "monitor_final (set_target_pills 5 (watermark_init ''x'')) [Obs 5 100 3 ''a'']"
  have s: "target_start_time ?w = 100"
    by (simp add: set_target_pills_def watermark_init_def monitor_defs)
  from set_target_pills_effect[of 4 ?w "[]"]
  have a: "target_start_time (set_target_pills 4 ?w) = 100"
    using s by simp
  from set_target_pills_effect[of 0 ?w "[Obs 0 101 2 ''b'', Obs 5 102 2 ''c'', Obs 0 110 2 ''d'']"]
  have "True \<notin> set (monitor_outputs (set_target_pills 0 ?w)
       [Obs 0 101 2 ''b'', Obs 5 102 2 ''c'', Obs 0 110 2 ''d''])"
    by blast
  then have b: "monitor_outputs (set_target_pills 0 ?w)
       [Obs 0 101 2 ''b'', Obs 5 102 2 ''c'', Obs 0 110 2 ''d''] = [False, False, False]"
    by simp
  show ?thesis using a b by blast
qed

text \<open>
  Claim C5 as stated (the timers are reset) fails: after a target change in the middle of
  an episode neither the start time nor the settle duration is back at its initial value.
\<close>

theorem set_target_pills_keeps_timers:
  "target_start_time
     (set_target_pills 4 (monitor_final (set_target_pills 5 (watermark_init ''x'')) [Obs 5 100 3 ''a'']))
     \<noteq> target_start_time (watermark_init ''x'')
   \<and> target_stable_seconds
     (set_target_pills 4 (monitor_final (set_target_pills 5 (watermark_init ''x'')) [Obs 5 100 3 ''a'']))
     \<noteq> target_stable_seconds (watermark_init ''x'')"
  by (simp add: set_target_pills_def watermark_init_def monitor_defs)

lemma monitor_step_invariant:
  assumes "stability_invariant w" "clock_positive op"
  shows "stability_invariant (monitor_step w op)"
proof (cases op)
  case (Set_target n)
  then show ?thesis by (simp add: stability_invariant_def set_target_pills_def)
next
  case Reset_stats
  then show ?thesis by (simp add: stability_invariant_def reset_stats_def)
next
  case (Observe ob)
  then show ?thesis
    using assms by (auto simp add: stability_invariant_def monitor_defs)
next
  case (Unacknowledged ob)
  then show ?thesis
    using assms by (auto simp add: stability_invariant_def monitor_defs)
qed

lemma monitor_exec_invariant:
  assumes "stability_invariant w" "list_all clock_positive ops"
  shows "stability_invariant (monitor_exec w ops)"
  using assms
proof (induction ops arbitrary: w)
  case Nil
  then show ?case by simp
next
  case (Cons op ops)
  then show ?case by (simp add: monitor_step_invariant)
qed

text \<open>
  Claim C9. Every state the monitor reaches from its construction through any sequence of
  calls of \<^verbatim>\<open>set_target_pills\<close>, \<^verbatim>\<open>reset_stats\<close> and \<^verbatim>\<open>update_stats\<close>, where
  \<^verbatim>\<open>mark_notification_triggered\<close> is called only directly after a true result of
  \<^verbatim>\<open>update_stats\<close> (or not at all) and the clock readings are positive: if the reached flag
  is set, the start time is set (it is not 0, the value of an unset start time), and if the
  notification flag is set, the reached flag is set.
\<close>

theorem reachable_states_invariant:
  assumes "list_all clock_positive ops"
  shows "(target_reached (monitor_exec (watermark_init txt) ops) \<longrightarrow>
            target_start_time (monitor_exec (watermark_init txt) ops) \<noteq> 0)
       \<and> (notification_triggered (monitor_exec (watermark_init txt) ops) \<longrightarrow>
            target_reached (monitor_exec (watermark_init txt) ops))"
proof -
  have i: "stability_invariant (watermark_init txt)"
    by (simp add: stability_invariant_def watermark_init_def)
  have "stability_invariant (monitor_exec (watermark_init txt) ops)"
    by (rule monitor_exec_invariant[OF i assms])
  then show ?thesis by (simp add: stability_invariant_def)
qed

text \<open>
  Claim C9 at a concrete session: target 5, a frame on target whose acknowledgement is
  skipped, a reset, then an episode that is confirmed and acknowledged. The notification
  flag is set, and so are the reached flag and the start time.
\<close>

theorem reachable_states_invariant_witness:
  "list_all clock_positive
     [Set_target 5, Unacknowledged (Obs 5 90 2 ''u''), Reset_stats,
      Observe (Obs 5 100 2 ''a''), Observe (Obs 5 103 2 ''b'')]
   \<and> notification_triggered
       (monitor_exec (watermark_init ''x'')
          [Set_target 5, Unacknowledged (Obs 5 90 2 ''u''), Reset_stats,
           Observe (Obs 5 100 2 ''a''), Observe (Obs 5 103 2 ''b'')])
   \<and> target_reached
       (monitor_exec (watermark_init ''x'')
          [Set_target 5, Unacknowledged (Obs 5 90 2 ''u''), Reset_stats,
           Observe (Obs 5 100 2 ''a''), Observe (Obs 5 103 2 ''b'')])
   \<and> target_start_time
       (monitor_exec (watermark_init ''x'')
          [Set_target 5, Unacknowledged (Obs 5 90 2 ''u''), Reset_stats,
           Observe (Obs 5 100 2 ''a''), Observe (Obs 5 103 2 ''b'')]) \<noteq> 0"
proof -
  let ?ops = "[Set_target 5, Unacknowledged (Obs 5 90 2 ''u''), Reset_stats,
      Observe (Obs 5 100 2 ''a''), Observe (Obs 5 103 2 ''b'')]"
  have p: "list_all clock_positive ?ops"
    by simp
  have n: "notification_triggered (monitor_exec (watermark_init ''x'') ?ops)"
    by (simp add: set_target_pills_def reset_stats_def watermark_init_def monitor_defs)
  from reachable_states_invariant[OF p, of "''x''"] p n
  show ?thesis by blast
qed

section \<open>Properties of the frame hand-off and of stopping the camera thread\<close>

lemma publish_frame_bounded:
  assumes "length q \<le> maxsize"
  shows "publish_frame q f = Some [f]"
proof (cases q)
  case Nil
  then show ?thesis
    by (simp add: publish_frame_def queue_put_def queue_full_def maxsize_def)
next
  case (Cons x r)
  then have "r = []" using assms by (simp add: maxsize_def)
  then show ?thesis using Cons
    by (simp add: publish_frame_def queue_put_def queue_full_def queue_get_nowait_def maxsize_def)
qed

lemma run_writes_bounded:
  assumes "length (frame_queue ct) \<le> maxsize"
  shows "run_writes ct fs =
           Some (if fs = [] then ct else ct\<lparr>frame_queue := [last fs]\<rparr>)"
  using assms
proof (induction fs arbitrary: ct)
  case Nil
  then show ?case by simp
next
  case (Cons f fs)
  have step: "run_iteration ct True f = Some (ct\<lparr>frame_queue := [f]\<rparr>)"
    using Cons.prems by (simp add: run_iteration_def publish_frame_bounded)
  have "length (frame_queue (ct\<lparr>frame_queue := [f]\<rparr>)) \<le> maxsize"
    by (simp add: maxsize_def)
  from Cons.IH[OF this] step show ?case by simp
qed

text \<open>
  Claim C6. The queue object never holds more than \<open>maxsize = 1\<close> items. From any such
  state, N \<open>\<ge> 1\<close> consecutive successful reads of the producer, with no read of the consumer
  in between, never block the producer and leave exactly the most recent frame:
  \<^verbatim>\<open>get_frame\<close> returns it, and a second \<^verbatim>\<open>get_frame\<close> returns \<^verbatim>\<open>None\<close>. On a thread whose
  slot was never written, and on any empty slot, \<^verbatim>\<open>get_frame\<close> returns \<^verbatim>\<open>None\<close> and
  changes nothing.
\<close>

theorem single_slot_handoff:
  assumes "length (frame_queue ct) \<le> maxsize" and "fs \<noteq> []"
  shows "map_option frame_queue (run_writes ct fs) = Some [last fs]
       \<and> map_option (\<lambda>c. fst (get_frame c)) (run_writes ct fs) = Some (Some (last fs))
       \<and> map_option (\<lambda>c. fst (get_frame (snd (get_frame c)))) (run_writes ct fs) = Some None
       \<and> fst (get_frame (camera_thread_init idx w h :: 'f camera_thread)) = None
       \<and> (frame_queue ct0 = [] \<longrightarrow> get_frame ct0 = (None, ct0))"
proof -
  have r: "run_writes ct fs = Some (ct\<lparr>frame_queue := [last fs]\<rparr>)"
    using run_writes_bounded[OF assms(1), of fs] assms(2) by simp
  show ?thesis
    unfolding r
    by (simp add: get_frame_def queue_get_nowait_def camera_thread_init_def)
qed

text \<open>
  Claim C6 at a concrete hand-off: three frames written onto a slot that held an unread
  frame; the consumer gets the third, and then nothing.
\<close>

theorem single_slot_handoff_witness:
  "length (frame_queue ((camera_thread_init 0 800 600)\<lparr>frame_queue := [7::nat]\<rparr>)) \<le> maxsize
   \<and> [1, 2, 3::nat] \<noteq> []
   \<and> map_option frame_queue
       (run_writes ((camera_thread_init 0 800 600)\<lparr>frame_queue := [7::nat]\<rparr>) [1, 2, 3]) = Some [3]
   \<and> map_option (\<lambda>c. fst (get_frame c))
       (run_writes ((camera_thread_init 0 800 600)\<lparr>frame_queue := [7::nat]\<rparr>) [1, 2, 3]) = Some (Some 3)
   \<and> map_option (\<lambda>c. fst (get_frame (snd (get_frame c))))
       (run_writes ((camera_thread_init 0 800 600)\<lparr>frame_queue := [7::nat]\<rparr>) [1, 2, 3]) = Some None
   \<and> get_frame (camera_thread_init 0 800 600 :: nat camera_thread) =
       (None, camera_thread_init 0 800 600)"
proof -
  let ?ct = "(camera_thread_init 0 800 600)\<lparr>frame_queue := [7::nat]\<rparr>"
  have a: "length (frame_queue ?ct) \<le> maxsize"
    by (simp add: maxsize_def)
  have b: "[1, 2, 3::nat] \<noteq> []" by simp
  have e: "frame_queue (camera_thread_init 0 800 600 :: nat camera_thread) = []"
    by (simp add: camera_thread_init_def)
  have l: "last [1, 2, 3::nat] = 3" by simp
  note inst = single_slot_handoff[OF a b, of 0 800 600 "camera_thread_init 0 800 600"]
  from inst[unfolded l] a b e
  show ?thesis by blast
qed

text \<open>
  Claim C8, amended. \<^verbatim>\<open>stop()\<close> clears the running flag and releases the capture object
  if there is one, and a second call changes nothing more. It does not wait for the
  acquisition thread: the phase of the thread, and with it \<^verbatim>\<open>is_alive()\<close>, is the same
  after the call as before. A thread that is inside its loop ends at its next test of the
  flag.
\<close>

theorem stop_idempotent_no_join:
  "stop (stop ct) = stop ct
   \<and> \<not> running (stop ct)
   \<and> camera (stop ct) \<noteq> Some True
   \<and> phase (stop ct) = phase ct
   \<and> is_alive (stop ct) = is_alive ct
   \<and> frame_queue (stop ct) = frame_queue ct
   \<and> (phase ct = Looping \<longrightarrow>
        map_option phase (loop_step (stop ct) ret frame) = Some Finished
        \<and> map_option is_alive (loop_step (stop ct) ret frame) = Some False)"
  by (cases "camera ct") (simp_all add: stop_def loop_step_def is_alive_def Let_def)

text \<open>
  Claim C8 at a concrete thread: started, device opened, inside the loop. After \<^verbatim>\<open>stop()\<close>
  the next test of the flag ends it.
\<close>

theorem stop_idempotent_no_join_witness:
  "phase (run_open (start (camera_thread_init 0 800 600 :: nat camera_thread)) (Some True)) = Looping
   \<and> camera (stop (run_open (start (camera_thread_init 0 800 600 :: nat camera_thread)) (Some True)))
       = Some False
   \<and> map_option phase
       (loop_step (stop (run_open (start (camera_thread_init 0 800 600 :: nat camera_thread)) (Some True)))
          False 0) = Some Finished"
proof -
  let ?ct = "run_open (start (camera_thread_init 0 800 600 :: nat camera_thread)) (Some True)"
  have p: "phase ?ct = Looping"
    by (simp add: run_open_def start_def camera_thread_init_def)
  have c: "camera (stop ?ct) = Some False"
    by (simp add: stop_def run_open_def start_def camera_thread_init_def)
  from stop_idempotent_no_join[of ?ct False 0] p c
  show ?thesis by blast
qed

text \<open>
  Claim C8 as stated (\<^verbatim>\<open>stop()\<close> returns only after the acquisition thread has exited)
  fails: when \<^verbatim>\<open>stop()\<close> is called on a thread inside its loop, the thread is still alive
  when the call has returned.
\<close>

theorem stop_returns_while_thread_alive:
  "is_alive (stop (run_open (start (camera_thread_init 0 800 600 :: nat camera_thread)) (Some True)))"
  by (simp add: stop_def run_open_def start_def camera_thread_init_def is_alive_def)

section \<open>Properties of the notification dispatcher\<close>

lemmas dispatcher_defs = speak_def on_speech_end_def process_next_message_def
  speak_direct_def sink_finish_def Let_def

lemma strip_whitespace:
  assumes "\<forall>c\<in>set t. isspace c"
  shows "strip t = []"
proof -
  have d: "dropWhile isspace t = []" using assms by (induction t) simp_all
  show ?thesis unfolding strip_def d by simp
qed

lemma dispatcher_run_append:
  "dispatcher_run a (es @ fs) = dispatcher_run (dispatcher_run a es) fs"
  by (induction es arbitrary: a) simp_all

text \<open>The flags set by \<^verbatim>\<open>_init_audio\<close> never change.\<close>

lemma dispatcher_step_flags:
  "initialized (dispatcher_step a e) = initialized a \<and> engine (dispatcher_step a e) = engine a"
  by (cases e)
    (auto simp add: dispatcher_defs split: option.splits list.splits handover.splits)

lemma dispatcher_run_flags:
  "initialized (dispatcher_run a es) = initialized a \<and> engine (dispatcher_run a es) = engine a"
  by (induction es arbitrary: a) (simp_all add: dispatcher_step_flags)

text \<open>
  Under the contract of the engine the speaking flag is set exactly while the engine holds
  an utterance, and the engine never holds more than one.
\<close>

lemma dispatcher_step_single_flight:
  assumes "is_speaking a = (sink_playing a \<noteq> [])" "length (sink_playing a) \<le> 1"
    "engine_contract e"
  shows "is_speaking (dispatcher_step a e) = (sink_playing (dispatcher_step a e) \<noteq> [])
       \<and> length (sink_playing (dispatcher_step a e)) \<le> 1"
proof (cases e)
  case (Enqueue msg ok)
  then show ?thesis
    using assms
    by (auto simp add: dispatcher_defs split: option.splits list.splits handover.splits)
next
  case (SpeechEnd ended ok)
  have d: "drop 1 (sink_playing a) = []" using assms(2) by simp
  show ?thesis
    unfolding SpeechEnd using assms SpeechEnd
    by (auto simp add: dispatcher_defs d split: list.splits handover.splits)
qed

lemma dispatcher_run_single_flight:
  assumes "is_speaking a = (sink_playing a \<noteq> [])" "length (sink_playing a) \<le> 1"
    "list_all engine_contract es"
  shows "is_speaking (dispatcher_run a es) = (sink_playing (dispatcher_run a es) \<noteq> [])
       \<and> length (sink_playing (dispatcher_run a es)) \<le> 1"
  using assms
proof (induction es arbitrary: a)
  case Nil
  then show ?case by simp
next
  case (Cons e es)
  have c: "engine_contract e" "list_all engine_contract es"
    using Cons.prems(3) by simp_all
  from dispatcher_step_single_flight[OF Cons.prems(1,2) c(1)]
  show ?case using Cons.IH[of "dispatcher_step a e"] c(2) by simp
qed

text \<open>
  With the audio system initialised, what was handed to the engine followed by what still
  waits is the sequence of accepted texts: a step hands over the head of the queue or
  nothing, and appends an accepted text at the back or nothing.
\<close>

lemma dispatcher_step_fifo:
  assumes "initialized a" "engine a"
  shows "sink_calls (dispatcher_step a e) @ message_queue (dispatcher_step a e) =
           sink_calls a @ message_queue a @ accepted_texts [e]"
proof (cases e)
  case (Enqueue msg ok)
  show ?thesis
  proof (cases msg)
    case None
    then show ?thesis using Enqueue assms by (simp add: dispatcher_defs)
  next
    case (Some t)
    then show ?thesis
      using Enqueue assms
      by (cases "message_queue a") (auto simp add: dispatcher_defs split: handover.splits)
  qed
next
  case (SpeechEnd ended ok)
  then show ?thesis
    using assms by (auto simp add: dispatcher_defs split: list.splits handover.splits)
qed

lemma accepted_texts_Cons:
  "accepted_texts (e # es) = accepted_texts [e] @ accepted_texts es"
proof (cases e)
  case (Enqueue msg ok)
  then show ?thesis by (cases msg) simp_all
next
  case (SpeechEnd ended ok)
  then show ?thesis by simp
qed

lemma dispatcher_run_fifo:
  assumes "initialized a" "engine a"
  shows "sink_calls (dispatcher_run a es) @ message_queue (dispatcher_run a es) =
           sink_calls a @ message_queue a @ accepted_texts es"
  using assms
proof (induction es arbitrary: a)
  case Nil
  then show ?case by simp
next
  case (Cons e es)
  have f: "initialized (dispatcher_step a e)" "engine (dispatcher_step a e)"
    using Cons.prems by (simp_all add: dispatcher_step_flags)
  have "sink_calls (dispatcher_run a (e # es)) @ message_queue (dispatcher_run a (e # es)) =
        sink_calls (dispatcher_step a e) @ message_queue (dispatcher_step a e) @ accepted_texts es"
    using Cons.IH[OF f] by simp
  also have "\<dots> = (sink_calls a @ message_queue a @ accepted_texts [e]) @ accepted_texts es"
    using dispatcher_step_fifo[OF Cons.prems, of e] by (metis append.assoc)
  also have "\<dots> = sink_calls a @ message_queue a @ accepted_texts (e # es)"
    using accepted_texts_Cons[of e es] by simp
  finally show ?case .
qed

text \<open>Without an initialised audio system nothing is queued and nothing is handed over.\<close>

lemma dispatcher_step_uninitialised:
  assumes "\<not> (initialized a \<and> engine a)" "message_queue a = []" "sink_calls a = []"
  shows "message_queue (dispatcher_step a e) = [] \<and> sink_calls (dispatcher_step a e) = []"
  using assms by (cases e) (auto simp add: dispatcher_defs)

lemma dispatcher_run_uninitialised:
  assumes "\<not> (initialized a \<and> engine a)" "message_queue a = []" "sink_calls a = []"
  shows "message_queue (dispatcher_run a es) = [] \<and> sink_calls (dispatcher_run a es) = []"
  using assms
proof (induction es arbitrary: a)
  case Nil
  then show ?case by simp
next
  case (Cons e es)
  have "\<not> (initialized (dispatcher_step a e) \<and> engine (dispatcher_step a e))"
    using Cons.prems(1) by (simp add: dispatcher_step_flags)
  from Cons.IH[OF this] dispatcher_step_uninitialised[OF Cons.prems, of e]
  show ?case by simp
qed

text \<open>
  Progress, when no hand-over fails: a text waits only while an utterance is in flight, and
  the utterance in flight is the text handed over last.
\<close>

lemma dispatcher_step_progress:
  assumes "initialized a" "engine a" "handover_returns e"
    "is_speaking a = (sink_playing a \<noteq> [])"
    "message_queue a \<noteq> [] \<longrightarrow> sink_playing a \<noteq> []"
    "sink_playing a = (if is_speaking a then [last (sink_calls a)] else [])"
  shows "is_speaking (dispatcher_step a e) = (sink_playing (dispatcher_step a e) \<noteq> [])"
    and "message_queue (dispatcher_step a e) \<noteq> [] \<longrightarrow> sink_playing (dispatcher_step a e) \<noteq> []"
    and "sink_playing (dispatcher_step a e) =
           (if is_speaking (dispatcher_step a e) then [last (sink_calls (dispatcher_step a e))]
            else [])"
proof -
  have all: "is_speaking (dispatcher_step a e) = (sink_playing (dispatcher_step a e) \<noteq> [])
     \<and> (message_queue (dispatcher_step a e) \<noteq> [] \<longrightarrow> sink_playing (dispatcher_step a e) \<noteq> [])
     \<and> sink_playing (dispatcher_step a e) =
           (if is_speaking (dispatcher_step a e) then [last (sink_calls (dispatcher_step a e))]
            else [])"
  proof (cases e)
    case (Enqueue msg ok)
    then have ok: "ok = Returned" using assms(3) by simp
    show ?thesis
    proof (cases "is_speaking a")
      case True
      then have pl: "sink_playing a = [last (sink_calls a)]" using assms(6) by simp
      show ?thesis
        unfolding Enqueue ok using assms(1,2) True pl
        by (auto simp add: dispatcher_defs split: option.splits list.splits)
    next
      case False
      then have pl: "sink_playing a = []" using assms(6) by simp
      then have qu: "message_queue a = []" using assms(5) by blast
      show ?thesis
        unfolding Enqueue ok using assms(1,2) False pl qu
        by (auto simp add: dispatcher_defs split: option.splits)
    qed
  next
    case (SpeechEnd ended ok)
    then have ok: "ok = Returned" "ended = True" using assms(3) by simp_all
    have len: "length (sink_playing a) \<le> 1"
      by (cases "is_speaking a") (simp_all add: assms(6))
    show ?thesis
      unfolding SpeechEnd ok using assms(1,2) len
      by (cases "message_queue a") (simp_all add: dispatcher_defs)
  qed
  show "is_speaking (dispatcher_step a e) = (sink_playing (dispatcher_step a e) \<noteq> [])"
    and "message_queue (dispatcher_step a e) \<noteq> [] \<longrightarrow> sink_playing (dispatcher_step a e) \<noteq> []"
    and "sink_playing (dispatcher_step a e) =
           (if is_speaking (dispatcher_step a e) then [last (sink_calls (dispatcher_step a e))]
            else [])"
    using all by blast+
qed

lemma dispatcher_run_progress:
  assumes "initialized a" "engine a" "list_all handover_returns es"
    "is_speaking a = (sink_playing a \<noteq> [])"
    "message_queue a \<noteq> [] \<longrightarrow> sink_playing a \<noteq> []"
    "sink_playing a = (if is_speaking a then [last (sink_calls a)] else [])"
  shows "(message_queue (dispatcher_run a es) \<noteq> [] \<longrightarrow> sink_playing (dispatcher_run a es) \<noteq> [])
       \<and> sink_playing (dispatcher_run a es) =
           (if is_speaking (dispatcher_run a es) then [last (sink_calls (dispatcher_run a es))]
            else [])"
  using assms
proof (induction es arbitrary: a)
  case Nil
  then show ?case by simp
next
  case (Cons e es)
  have h: "handover_returns e" "list_all handover_returns es"
    using Cons.prems(3) by simp_all
  have f: "initialized (dispatcher_step a e)" "engine (dispatcher_step a e)"
    using Cons.prems(1,2) by (simp_all add: dispatcher_step_flags)
  note p = dispatcher_step_progress[OF Cons.prems(1,2) h(1) Cons.prems(4,5,6)]
  show ?case
    unfolding dispatcher_run.simps by (rule Cons.IH[OF f h(2) p])
qed

text \<open>
  Draining, when no hand-over fails: as many callbacks as texts wait hand all of them over,
  in the order of the queue.
\<close>

lemma dispatcher_drain:
  assumes "initialized a" "engine a" "length (message_queue a) = n"
  shows "sink_calls (dispatcher_run a (replicate n (SpeechEnd True Returned))) =
           sink_calls a @ message_queue a
       \<and> message_queue (dispatcher_run a (replicate n (SpeechEnd True Returned))) = []"
  using assms
proof (induction n arbitrary: a)
  case 0
  then show ?case by simp
next
  case (Suc n)
  then obtain m ms where q: "message_queue a = m # ms" "length ms = n"
    by (cases "message_queue a") auto
  let ?a = "dispatcher_step a (SpeechEnd True Returned)"
  have s: "sink_calls ?a = sink_calls a @ [m]" "message_queue ?a = ms"
    using Suc.prems(1,2) q by (simp_all add: dispatcher_defs)
  have f: "initialized ?a" "engine ?a"
    using Suc.prems(1,2) dispatcher_step_flags[of a "SpeechEnd True Returned"] by blast+
  have l: "length (message_queue ?a) = n" using s q by simp
  from Suc.IH[OF f l] show ?case using s q by simp
qed

text \<open>
  Claim C7. A newly constructed dispatcher, any sequence of \<^verbatim>\<open>speak\<close> calls and callbacks
  of the engine in any interleaving; \<open>A\<close> is the state after the sequence.

  Whatever the engine does: the texts passed to the engine so far, followed by the texts
  still queued, are exactly the accepted texts in the order of their \<^verbatim>\<open>speak\<close> calls. So
  the texts are passed on in enqueue order, the queue holds the remaining ones and never a
  text that left it (unless \<^verbatim>\<open>speak\<close> is called with it again), and equal consecutive
  texts are each queued and each passed on.

  When the engine keeps its contract (a hand-over returns, or fails before the engine got
  the text; a callback comes when an utterance has ended): the engine holds at most one
  unfinished utterance, and the speaking flag is set exactly when it holds one. A
  hand-over that fails after the engine got the text, or a callback without an ended
  utterance, is outside this part.

  When, moreover, no hand-over fails and the audio system is initialised: a text waits only
  while an utterance is in flight; the utterance in flight is the text handed over last; and
  as many further callbacks as texts wait hand every accepted text to the engine, which
  leaves the queue empty.
\<close>

theorem dispatcher_invariants:
  "sink_calls (dispatcher_run (audio_manager_init eng ini) evs)
       @ message_queue (dispatcher_run (audio_manager_init eng ini) evs) =
       (if eng \<and> ini then accepted_texts evs else [])
   \<and> sink_calls (dispatcher_run (audio_manager_init eng ini) evs) =
       take (length (sink_calls (dispatcher_run (audio_manager_init eng ini) evs)))
         (if eng \<and> ini then accepted_texts evs else [])
   \<and> message_queue (dispatcher_run (audio_manager_init eng ini) evs) =
       drop (length (sink_calls (dispatcher_run (audio_manager_init eng ini) evs)))
         (if eng \<and> ini then accepted_texts evs else [])
   \<and> (list_all engine_contract evs \<longrightarrow>
        length (sink_playing (dispatcher_run (audio_manager_init eng ini) evs)) \<le> 1
        \<and> is_speaking (dispatcher_run (audio_manager_init eng ini) evs) =
            (sink_playing (dispatcher_run (audio_manager_init eng ini) evs) \<noteq> []))
   \<and> (list_all handover_returns evs \<and> eng \<and> ini \<longrightarrow>
        (message_queue (dispatcher_run (audio_manager_init eng ini) evs) \<noteq> [] \<longrightarrow>
           sink_playing (dispatcher_run (audio_manager_init eng ini) evs) \<noteq> [])
        \<and> sink_playing (dispatcher_run (audio_manager_init eng ini) evs) =
            (if is_speaking (dispatcher_run (audio_manager_init eng ini) evs)
             then [last (sink_calls (dispatcher_run (audio_manager_init eng ini) evs))]
             else [])
        \<and> sink_calls
            (dispatcher_run (audio_manager_init eng ini)
               (evs @ replicate
                        (length (message_queue (dispatcher_run (audio_manager_init eng ini) evs)))
                        (SpeechEnd True Returned))) = accepted_texts evs
        \<and> message_queue
            (dispatcher_run (audio_manager_init eng ini)
               (evs @ replicate
                        (length (message_queue (dispatcher_run (audio_manager_init eng ini) evs)))
                        (SpeechEnd True Returned))) = [])"
proof -
  let ?a = "audio_manager_init eng ini"
  let ?A = "dispatcher_run ?a evs"
  let ?acc = "if eng \<and> ini then accepted_texts evs else []"
  have i: "is_speaking ?a = (sink_playing ?a \<noteq> [])" "length (sink_playing ?a) \<le> 1"
    by (simp_all add: audio_manager_init_def)
  have q: "sink_calls ?A @ message_queue ?A = ?acc"
  proof (cases "eng \<and> ini")
    case True
    then have "initialized ?a" "engine ?a" by (simp_all add: audio_manager_init_def)
    from dispatcher_run_fifo[OF this, of evs] True show ?thesis
      by (simp add: audio_manager_init_def)
  next
    case False
    then have "\<not> (initialized ?a \<and> engine ?a)" "message_queue ?a = []" "sink_calls ?a = []"
      by (auto simp add: audio_manager_init_def)
    from dispatcher_run_uninitialised[OF this, of evs] False show ?thesis by auto
  qed
  have t: "sink_calls ?A = take (length (sink_calls ?A)) ?acc"
    unfolding q[symmetric] by simp
  have d: "message_queue ?A = drop (length (sink_calls ?A)) ?acc"
    unfolding q[symmetric] by simp
  have sf: "list_all engine_contract evs \<longrightarrow>
        length (sink_playing ?A) \<le> 1 \<and> is_speaking ?A = (sink_playing ?A \<noteq> [])"
    using dispatcher_run_single_flight[OF i, of evs] by blast
  have pr: "list_all handover_returns evs \<and> eng \<and> ini \<longrightarrow>
        (message_queue ?A \<noteq> [] \<longrightarrow> sink_playing ?A \<noteq> [])
        \<and> sink_playing ?A = (if is_speaking ?A then [last (sink_calls ?A)] else [])
        \<and> sink_calls (dispatcher_run ?a
             (evs @ replicate (length (message_queue ?A)) (SpeechEnd True Returned))) =
            accepted_texts evs
        \<and> message_queue (dispatcher_run ?a
             (evs @ replicate (length (message_queue ?A)) (SpeechEnd True Returned))) = []"
  proof
    assume h: "list_all handover_returns evs \<and> eng \<and> ini"
    then have f0: "initialized ?a" "engine ?a" by (simp_all add: audio_manager_init_def)
    have p0: "is_speaking ?a = (sink_playing ?a \<noteq> [])"
      "message_queue ?a \<noteq> [] \<longrightarrow> sink_playing ?a \<noteq> []"
      "sink_playing ?a = (if is_speaking ?a then [last (sink_calls ?a)] else [])"
      by (simp_all add: audio_manager_init_def)
    have hr: "list_all handover_returns evs" using h by simp
    note p = dispatcher_run_progress[OF f0 hr p0]
    have f: "initialized ?A" "engine ?A"
      using f0 by (simp_all add: dispatcher_run_flags)
    note dr = dispatcher_drain[OF f refl]
    have acc: "sink_calls ?A @ message_queue ?A = accepted_texts evs"
      using q h by simp
    have d1: "sink_calls (dispatcher_run ?a
             (evs @ replicate (length (message_queue ?A)) (SpeechEnd True Returned))) =
            accepted_texts evs"
      unfolding dispatcher_run_append dr[THEN conjunct1] by (rule acc)
    have d2: "message_queue (dispatcher_run ?a
             (evs @ replicate (length (message_queue ?A)) (SpeechEnd True Returned))) = []"
      unfolding dispatcher_run_append by (rule dr[THEN conjunct2])
    show "(message_queue ?A \<noteq> [] \<longrightarrow> sink_playing ?A \<noteq> [])
        \<and> sink_playing ?A = (if is_speaking ?A then [last (sink_calls ?A)] else [])
        \<and> sink_calls (dispatcher_run ?a
             (evs @ replicate (length (message_queue ?A)) (SpeechEnd True Returned))) =
            accepted_texts evs
        \<and> message_queue (dispatcher_run ?a
             (evs @ replicate (length (message_queue ?A)) (SpeechEnd True Returned))) = []"
      using p d1 d2 by blast
  qed
  show ?thesis using q t d sf pr by blast
qed

text \<open>
  Claim C7 at a concrete interleaving in which no hand-over fails: the same text twice and
  another text while the first is playing, then one callback. Two texts have been handed
  over, the duplicate included, the second one is in flight and the third one waits; one
  more callback, as many as texts wait, hands over the third, in enqueue order.
\<close>

theorem dispatcher_invariants_witness:
  "list_all handover_returns
      [Enqueue (Some ''ok'') Returned, Enqueue (Some ''ok'') Returned,
       Enqueue (Some ''go'') Returned, SpeechEnd True Returned]
   \<and> list_all engine_contract
      [Enqueue (Some ''ok'') Returned, Enqueue (Some ''ok'') Returned,
       Enqueue (Some ''go'') Returned, SpeechEnd True Returned]
   \<and> sink_calls (dispatcher_run (audio_manager_init True True)
      [Enqueue (Some ''ok'') Returned, Enqueue (Some ''ok'') Returned,
       Enqueue (Some ''go'') Returned, SpeechEnd True Returned]) = [''ok'', ''ok'']
   \<and> message_queue (dispatcher_run (audio_manager_init True True)
      [Enqueue (Some ''ok'') Returned, Enqueue (Some ''ok'') Returned,
       Enqueue (Some ''go'') Returned, SpeechEnd True Returned]) = [''go'']
   \<and> sink_playing (dispatcher_run (audio_manager_init True True)
      [Enqueue (Some ''ok'') Returned, Enqueue (Some ''ok'') Returned,
       Enqueue (Some ''go'') Returned, SpeechEnd True Returned]) = [''ok'']
   \<and> sink_calls (dispatcher_run (audio_manager_init True True)
      ([Enqueue (Some ''ok'') Returned, Enqueue (Some ''ok'') Returned,
        Enqueue (Some ''go'') Returned, SpeechEnd True Returned]
       @ [SpeechEnd True Returned])) = [''ok'', ''ok'', ''go'']"
proof -
  let ?evs = "[Enqueue (Some ''ok'') Returned, Enqueue (Some ''ok'') Returned,
       Enqueue (Some ''go'') Returned, SpeechEnd True Returned]"
  let ?A = "dispatcher_run (audio_manager_init True True) ?evs"
  have h: "list_all handover_returns ?evs" by simp
  have c: "list_all engine_contract ?evs" by simp
  have q: "message_queue ?A = [''go'']"
    by (simp add: audio_manager_init_def dispatcher_defs strip_def isspace_def)
  have sp: "is_speaking ?A"
    by (simp add: audio_manager_init_def dispatcher_defs strip_def isspace_def)
  have acc: "accepted_texts ?evs = [''ok'', ''ok'', ''go'']"
    by (simp add: strip_def isspace_def)
  note inst = dispatcher_invariants[of True True ?evs]
  have calls: "sink_calls ?A = [''ok'', ''ok'']"
    using inst[THEN conjunct1] q acc by simp
  have hyp: "list_all handover_returns ?evs \<and> True \<and> True" using h by simp
  note pr = inst[THEN conjunct2, THEN conjunct2, THEN conjunct2, THEN conjunct2, THEN mp, OF hyp]
  have play: "sink_playing ?A = [''ok'']"
    using pr[THEN conjunct2, THEN conjunct1] sp calls by simp
  have drain: "sink_calls (dispatcher_run (audio_manager_init True True)
      (?evs @ [SpeechEnd True Returned])) = [''ok'', ''ok'', ''go'']"
    using pr[THEN conjunct2, THEN conjunct2, THEN conjunct1] q acc by simp
  show ?thesis using h c calls q play drain by blast
qed

text \<open>
  Claim C10. \<^verbatim>\<open>speak\<close> called with \<^verbatim>\<open>None\<close>, with the empty string or with a string of
  white space only returns the dispatcher unchanged, in every state and whatever the engine
  would do: nothing is appended to the queue, nothing is handed to the engine, no flag
  changes. None of the branches of \<^verbatim>\<open>speak\<close> raises.
\<close>

theorem speak_blank_is_noop:
  "speak a None ok = a
   \<and> speak a (Some []) ok = a
   \<and> ((\<forall>c\<in>set t. isspace c) \<longrightarrow> speak a (Some t) ok = a)"
  by (simp add: speak_def strip_whitespace)

text \<open>
  Claim C10 at a dispatcher that is playing one text and queues another: a string of a
  blank, a tab and a line feed changes nothing.
\<close>

theorem speak_blank_is_noop_witness:
  "list_all isspace [CHR '' '', CHR 0x09, CHR 0x0A]
   \<and> speak (dispatcher_run (audio_manager_init True True)
              [Enqueue (Some ''ok'') Returned, Enqueue (Some ''go'') Returned])
        (Some [CHR '' '', CHR 0x09, CHR 0x0A]) Returned =
      dispatcher_run (audio_manager_init True True)
        [Enqueue (Some ''ok'') Returned, Enqueue (Some ''go'') Returned]
   \<and> message_queue (dispatcher_run (audio_manager_init True True)
        [Enqueue (Some ''ok'') Returned, Enqueue (Some ''go'') Returned]) = [''go'']"
proof -
  let ?a = "dispatcher_run (audio_manager_init True True)
        [Enqueue (Some ''ok'') Returned, Enqueue (Some ''go'') Returned]"
  have w: "list_all isspace [CHR '' '', CHR 0x09, CHR 0x0A]"
    by (simp add: isspace_def)
  then have b: "\<forall>c\<in>set [CHR '' '', CHR 0x09, CHR 0x0A]. isspace c"
    by simp
  have q: "message_queue ?a = [''go'']"
    by (simp add: audio_manager_init_def dispatcher_defs strip_def isspace_def)
  from speak_blank_is_noop[of ?a Returned "[CHR '' '', CHR 0x09, CHR 0x0A]", THEN conjunct2,
      THEN conjunct2, THEN mp, OF b] w q
  show ?thesis by blast
qed

section \<open>Properties of the processing loop\<close>

text \<open>
  On the monitor, a tick with a detection result is the per-frame call with its
  acknowledgement, provided the announcement could be formatted.
\<close>

lemma update_video_monitor:
  assumes "env_message e = Some m"
  shows "watermark_of (update_video ap (Boxes n) e) =
           snd (observe_and_mark (watermark_of ap)
                  (Obs (int n) (env_clock e) (env_draw e) (env_stamp e)))"
  using assms
  by (simp add: update_video_def trigger_success_notification_def observe_and_mark_def Let_def
      split: prod.splits)

text \<open>
  Claim C3, amended. In a tick where \<^verbatim>\<open>update_stats\<close> returns true and the announcement is
  formatted, the loop makes three calls in this order: the chime, \<^verbatim>\<open>speak\<close> with the
  announcement, \<^verbatim>\<open>mark_notification_triggered\<close>. The announcement is enqueued before the
  monitor is acknowledged, not after. In a tick where \<^verbatim>\<open>update_stats\<close> returns false
  none of the three calls is made.
\<close>

theorem notification_call_order:
  "(fst (update_stats (watermark_of ap) (int n) (env_clock e) (env_draw e))
      \<and> env_message e = Some m \<longrightarrow>
      calls (update_video ap (Boxes n) e) =
        calls ap @ [Call_play_beep, Call_speak m, Call_mark_notification_triggered]
      \<and> precedes (Call_speak m) Call_mark_notification_triggered
          (drop (length (calls ap)) (calls (update_video ap (Boxes n) e)))
      \<and> \<not> precedes Call_mark_notification_triggered (Call_speak m)
          (drop (length (calls ap)) (calls (update_video ap (Boxes n) e)))
      \<and> audio_manager_of (update_video ap (Boxes n) e) =
          speak (audio_manager_of ap) (Some m) (env_sink_ok e)
      \<and> watermark_of (update_video ap (Boxes n) e) =
          mark_notification_triggered
            (snd (update_stats (watermark_of ap) (int n) (env_clock e) (env_draw e)))
            (env_stamp e))
   \<and> (\<not> fst (update_stats (watermark_of ap) (int n) (env_clock e) (env_draw e)) \<longrightarrow>
        calls (update_video ap (Boxes n) e) = calls ap
        \<and> audio_manager_of (update_video ap (Boxes n) e) = audio_manager_of ap)"
  by (simp add: update_video_def trigger_success_notification_def precedes_def Let_def
      split: prod.splits)

text \<open>
  Claim C3 at a concrete tick: target 5, an episode begun at time 100 with settle duration 2,
  five boxes detected at time 102.
\<close>

theorem notification_call_order_witness:
  "fst (update_stats
          (monitor_final (set_target_pills 5 (watermark_init ''x'')) [Obs 5 100 2 ''a''])
          (int 5) 102 2)
   \<and> calls (update_video
        \<lparr>watermark_of = monitor_final (set_target_pills 5 (watermark_init ''x'')) [Obs 5 100 2 ''a''],
         audio_manager_of = audio_manager_init True True, calls = []\<rparr>
        (Boxes 5)
        \<lparr>env_clock = 102, env_draw = 2, env_stamp = ''s'', env_message = Some ''m'',
         env_sink_ok = Returned\<rparr>) =
      [Call_play_beep, Call_speak ''m'', Call_mark_notification_triggered]"
proof -
  let ?w = "monitor_final (set_target_pills 5 (watermark_init ''x'')) [Obs 5 100 2 ''a'']"
  let ?ap = "\<lparr>watermark_of = ?w, audio_manager_of = audio_manager_init True True, calls = []\<rparr>"
  let ?e = "\<lparr>env_clock = 102, env_draw = 2, env_stamp = ''s'', env_message = Some ''m'',
         env_sink_ok = Returned\<rparr>"
  have f: "fst (update_stats ?w (int 5) 102 2)"
    by (simp add: set_target_pills_def watermark_init_def monitor_defs)
  then have h: "fst (update_stats (watermark_of ?ap) (int 5) (env_clock ?e) (env_draw ?e))
      \<and> env_message ?e = Some ''m''"
    by simp
  from notification_call_order[of ?ap 5 ?e "''m''", THEN conjunct1, THEN mp, OF h] f
  show ?thesis by simp
qed

text \<open>
  Claim C3 as stated (\<^verbatim>\<open>mark_notification_triggered\<close> first, the enqueue afterwards) fails
  at that tick: the acknowledgement does not precede the call of \<^verbatim>\<open>speak\<close>.
\<close>

theorem mark_does_not_precede_enqueue:
  "\<not> precedes Call_mark_notification_triggered (Call_speak ''m'')
       (calls (update_video
          \<lparr>watermark_of = monitor_final (set_target_pills 5 (watermark_init ''x'')) [Obs 5 100 2 ''a''],
           audio_manager_of = audio_manager_init True True, calls = []\<rparr>
          (Boxes 5)
          \<lparr>env_clock = 102, env_draw = 2, env_stamp = ''s'', env_message = Some ''m'',
           env_sink_ok = Returned\<rparr>))"
  by (simp add: update_video_def trigger_success_notification_def precedes_def
      set_target_pills_def watermark_init_def monitor_defs)

end
